theory Spec2Isabelle
  imports Complex_Main "HOL-Library.Char_ord" "HOL-Library.List_Lexorder" "HOL-Library.Log_Nat"
begin

section \<open>Data model of server/server.cpp\<close>

text \<open>
  The wire message \<^verbatim>\<open>PriceUpdate\<close> of proto/market_data.proto. A C++ \<^verbatim>\<open>double\<close> is
  modelled by a real number: rounding of the floating-point operations is not part of
  this model. Where a computed value is claimed, the sections on double arithmetic further
  down repeat the two calls with every operation rounded. The \<^verbatim>\<open>int64\<close> timestamp is only stored and printed, never computed with, and is
  an \<open>int\<close>.
\<close>

record PriceUpdate =
  symbol :: string
  price :: real
  timestamp :: int

record PriceRequest =
  symbols :: "string list"

text \<open>The status codes of \<^verbatim>\<open>grpc::Status\<close> that matter to a streaming call.\<close>

datatype Status = OK | CANCELLED | UNKNOWN

text \<open>
  The data members of \<^verbatim>\<open>MarketDataServiceImpl\<close>: the vector of all received ticks and
  the one deque of recent prices. The mutex has no sequential content.
\<close>

record MarketDataServiceImpl =
  received_prices :: "PriceUpdate list"
  price_window :: "real list"

definition WINDOW_SIZE :: nat where
  "WINDOW_SIZE = 20"

text \<open>The service object as \<^verbatim>\<open>main\<close> constructs it: both containers empty.\<close>

definition new_service :: MarketDataServiceImpl where
  "new_service = \<lparr>received_prices = [], price_window = []\<rparr>"

text \<open>
  What \<^verbatim>\<open>SendPrice\<close> prints: symbol, price, the window size inside \<^verbatim>\<open>MA(...)\<close>, the moving
  average and the timestamp.
\<close>

record log_line =
  log_symbol :: string
  log_price :: real
  log_window_size :: nat
  log_moving_avg :: real
  log_timestamp :: int

section \<open>SendPrice\<close>

text \<open>
  Lines 64 to 69: \<^verbatim>\<open>push_back\<close> of the price, then one \<^verbatim>\<open>pop_front\<close> when the deque has
  grown beyond \<^verbatim>\<open>WINDOW_SIZE\<close>.
\<close>

definition push_window :: "real list \<Rightarrow> real \<Rightarrow> real list" where
  "push_window w p =
     (let w1 = w @ [p]
      in if length w1 > WINDOW_SIZE then tl w1 else w1)"

text \<open>
  Lines 72 to 74: the sum is accumulated from \<open>0.0\<close> in deque order, and the average is
  \<open>0.0\<close> for an empty deque, the quotient by the size otherwise.
\<close>

definition moving_average :: "real list \<Rightarrow> real" where
  "moving_average w =
     (let sum = foldl (+) 0 w
      in if w = [] then 0 else sum / real (length w))"

definition SendPrice ::
  "MarketDataServiceImpl \<Rightarrow> PriceUpdate \<Rightarrow> MarketDataServiceImpl \<times> Status \<times> log_line" where
  "SendPrice s request =
     (let received = received_prices s @ [request];
          window = push_window (price_window s) (price request);
          moving_avg = moving_average window;
          line = \<lparr>log_symbol = symbol request, log_price = price request,
                  log_window_size = length window, log_moving_avg = moving_avg,
                  log_timestamp = timestamp request\<rparr>
      in (s\<lparr>received_prices := received, price_window := window\<rparr>, OK, line))"

text \<open>
  A sequence of \<^verbatim>\<open>SendPrice\<close> calls, one after the other (the mutex serialises them):
  the final state and the printed lines, oldest first.
\<close>

fun SendPrice_calls ::
  "MarketDataServiceImpl \<Rightarrow> PriceUpdate list \<Rightarrow> MarketDataServiceImpl \<times> log_line list" where
  "SendPrice_calls s [] = (s, [])"
| "SendPrice_calls s (request # rest) =
     (case SendPrice s request of
        (s', _, line) \<Rightarrow>
          (case SendPrice_calls s' rest of (s'', ls) \<Rightarrow> (s'', line # ls)))"

text \<open>
  The pair \<open>(window size, moving average)\<close> printed for \<open>request\<close> when the requests
  \<open>earlier\<close> were sent to a fresh service before it.
\<close>

definition reported :: "PriceUpdate list \<Rightarrow> PriceUpdate \<Rightarrow> nat \<times> real" where
  "reported earlier request =
     (case SendPrice (fst (SendPrice_calls new_service earlier)) request of
        (_, _, line) \<Rightarrow> (log_window_size line, log_moving_avg line))"

text \<open>The earlier requests that carry a given symbol.\<close>

definition ingests_of :: "string \<Rightarrow> PriceUpdate list \<Rightarrow> PriceUpdate list" where
  "ingests_of wanted reqs = filter (\<lambda>r. symbol r = wanted) reqs"

text \<open>The last \<open>n\<close> elements of a list (all of it when it is shorter).\<close>

definition last_n :: "nat \<Rightarrow> 'a list \<Rightarrow> 'a list" where
  "last_n n xs = drop (length xs - n) xs"

section \<open>StreamPrices\<close>

text \<open>
  What a streaming call observes of its surroundings, as sequences: the value of the
  \<open>n\<close>-th \<^verbatim>\<open>std::rand()\<close> after the \<^verbatim>\<open>std::srand\<close> of line 92 (never negative), the value
  of \<^verbatim>\<open>std::time(0)\<close> when the \<open>n\<close>-th update is filled in, the answer of
  \<^verbatim>\<open>context->IsCancelled()\<close> at the top of the \<open>i\<close>-th iteration of the \<^verbatim>\<open>while\<close> loop, and
  the result of the \<open>n\<close>-th \<^verbatim>\<open>writer->Write\<close> (false when the stream is closed).
\<close>

record env =
  rand :: "nat \<Rightarrow> nat"
  time :: "nat \<Rightarrow> int"
  IsCancelled :: "nat \<Rightarrow> bool"
  Write :: "nat \<Rightarrow> bool"

text \<open>One call of \<^verbatim>\<open>writer->Write\<close>: the message handed over and what the call returned.\<close>

record write_call =
  sent :: PriceUpdate
  accepted :: bool

text \<open>
  \<^verbatim>\<open>std::map<std::string, double>\<close> is a list of entries with strictly increasing keys,
  which is the order its iterator visits them in; strings compare byte by byte.
  \<^verbatim>\<open>symbol_prices[k] = v\<close> overwrites the entry of \<open>k\<close> or inserts one at its place.
\<close>

fun map_assign :: "string \<Rightarrow> 'v \<Rightarrow> (string \<times> 'v) list \<Rightarrow> (string \<times> 'v) list" where
  "map_assign k v [] = [(k, v)]"
| "map_assign k v ((k', v') # m) =
     (if k < k' then (k, v) # (k', v') # m
      else if k = k' then (k, v) # m
      else (k', v') # map_assign k v m)"

text \<open>Lines 100 to 103: every requested symbol is set to 100.0, in request order.\<close>

fun init_prices :: "string list \<Rightarrow> (string \<times> real) list \<Rightarrow> (string \<times> real) list" where
  "init_prices [] symbol_prices = symbol_prices"
| "init_prices (s # rest) symbol_prices = init_prices rest (map_assign s 100 symbol_prices)"

text \<open>
  Line 121, \<^verbatim>\<open>(std::rand() % 200 - 100) / 100.0\<close>, for the value \<open>r\<close> that \<^verbatim>\<open>std::rand()\<close>
  returned: remainder and subtraction on \<^verbatim>\<open>int\<close>, then the division as a \<^verbatim>\<open>double\<close>.
\<close>

definition price_change :: "nat \<Rightarrow> real" where
  "price_change r = real_of_int (int r mod 200 - 100) / 100"

text \<open>
  Lines 116 to 137, one run of the \<^verbatim>\<open>for\<close> loop over the map, where \<open>n\<close> updates were
  written before it. The assignment of line 136 stores into the entry the iterator stands
  on, so the entries are replaced in place. The result of \<^verbatim>\<open>Write\<close> is recorded; the
  source does not look at it.
\<close>

fun price_pass ::
  "env \<Rightarrow> nat \<Rightarrow> (string \<times> real) list \<Rightarrow> (string \<times> real) list \<times> write_call list" where
  "price_pass e n [] = ([], [])"
| "price_pass e n ((key, current_price) # rest) =
     (let change = price_change (rand e n);
          new_price = current_price + change;
          update = \<lparr>symbol = key, price = new_price, timestamp = time e n\<rparr>;
          call = \<lparr>sent = update, accepted = Write e n\<rparr>
      in case price_pass e (Suc n) rest of
           (rest', calls) \<Rightarrow> ((key, new_price) # rest', call # calls))"

text \<open>
  Lines 107 to 141: the \<^verbatim>\<open>while (true)\<close> loop, in iteration \<open>iter\<close> with \<open>n\<close> updates
  written so far, and the \<^verbatim>\<open>return Status::OK\<close> that the \<^verbatim>\<open>break\<close> leads to. A loop that
  never breaks has the value \<open>None\<close>.
\<close>

partial_function (option) stream_loop ::
  "env \<Rightarrow> nat \<Rightarrow> nat \<Rightarrow> (string \<times> real) list \<Rightarrow> write_call list \<Rightarrow>
   (Status \<times> write_call list) option" where
  "stream_loop e iter n symbol_prices calls =
     (if IsCancelled e iter then Some (OK, calls)
      else case price_pass e n symbol_prices of
             (symbol_prices', new_calls) \<Rightarrow>
               stream_loop e (Suc iter) (n + length new_calls) symbol_prices'
                 (calls @ new_calls))"

declare stream_loop.simps [code]

text \<open>
  The whole call on the service object \<open>s\<close>: it returns the object as it leaves it, the
  status and the calls of \<^verbatim>\<open>Write\<close> it made, oldest first.
\<close>

definition StreamPrices ::
  "MarketDataServiceImpl \<Rightarrow> env \<Rightarrow> PriceRequest \<Rightarrow>
   (MarketDataServiceImpl \<times> Status \<times> write_call list) option" where
  "StreamPrices s e request =
     (let symbol_prices = init_prices (symbols request) []
      in case stream_loop e 0 0 symbol_prices [] of
           None \<Rightarrow> None
         | Some (status, calls) \<Rightarrow> Some (s, status, calls))"

text \<open>
  The first \<open>k\<close> runs of the \<^verbatim>\<open>for\<close> loop, one after the other: the map they leave and the
  calls of \<^verbatim>\<open>Write\<close> they make.
\<close>

fun passes ::
  "env \<Rightarrow> nat \<Rightarrow> nat \<Rightarrow> (string \<times> real) list \<Rightarrow> (string \<times> real) list \<times> write_call list" where
  "passes e 0 n symbol_prices = (symbol_prices, [])"
| "passes e (Suc k) n symbol_prices =
     (case price_pass e n symbol_prices of
        (symbol_prices', calls) \<Rightarrow>
          (case passes e k (n + length calls) symbol_prices' of
             (symbol_prices'', calls') \<Rightarrow> (symbol_prices'', calls @ calls')))"

text \<open>The distinct symbols of a request, in the order the map keeps them.\<close>

definition tracked_symbols :: "PriceRequest \<Rightarrow> string list" where
  "tracked_symbols request = sorted_list_of_set (set (symbols request))"

text \<open>The messages a finished call handed to the writer, without the results of the writes.\<close>

definition sent_updates ::
  "(MarketDataServiceImpl \<times> Status \<times> write_call list) option \<Rightarrow>
   (MarketDataServiceImpl \<times> Status \<times> PriceUpdate list) option" where
  "sent_updates res = map_option (\<lambda>(s, status, calls). (s, status, map sent calls)) res"

text \<open>Symbol and price of a written update, and the status with these pairs for a call.\<close>

definition quote :: "write_call \<Rightarrow> string \<times> real" where
  "quote c = (symbol (sent c), price (sent c))"

definition emitted_prices ::
  "(MarketDataServiceImpl \<times> Status \<times> write_call list) option \<Rightarrow>
   (Status \<times> (string \<times> real) list) option" where
  "emitted_prices res = map_option (\<lambda>(s, status, calls). (status, map quote calls)) res"

section \<open>Sample inputs\<close>

text \<open>Twenty ticks of one symbol with the prices 1 to 20, and a twenty-first.\<close>

definition twenty_ticks :: "PriceUpdate list" where
  "twenty_ticks =
     map (\<lambda>i. \<lparr>symbol = ''BTCUSDT'', price = real i, timestamp = int i\<rparr>) [1..<21]"

definition tick21 :: PriceUpdate where
  "tick21 = \<lparr>symbol = ''BTCUSDT'', price = 21, timestamp = 21\<rparr>"

text \<open>Two ticks that differ in symbol only, and a tick of another price.\<close>

definition eth10 :: PriceUpdate where
  "eth10 = \<lparr>symbol = ''ETHUSDT'', price = 10, timestamp = 0\<rparr>"

definition btc10 :: PriceUpdate where
  "btc10 = \<lparr>symbol = ''BTCUSDT'', price = 10, timestamp = 0\<rparr>"

definition btc20 :: PriceUpdate where
  "btc20 = \<lparr>symbol = ''BTCUSDT'', price = 20, timestamp = 1\<rparr>"

text \<open>A service object that has ingested one tick.\<close>

definition used_service :: MarketDataServiceImpl where
  "used_service = fst (SendPrice new_service \<lparr>symbol = ''ETHUSDT'', price = 10, timestamp = 0\<rparr>)"

text \<open>
  Two clients: for both, cancellation is observed in iteration 2 and not before. For the
  first every write fails; for the second every write succeeds.
\<close>

definition client_gone :: env where
  "client_gone = \<lparr>rand = (\<lambda>n. 150), time = (\<lambda>n. 0), IsCancelled = (\<lambda>i. 2 \<le> i),
     Write = (\<lambda>n. False)\<rparr>"

definition btc_request :: PriceRequest where
  "btc_request = \<lparr>symbols = [''BTCUSDT'']\<rparr>"

definition two_rounds :: env where
  "two_rounds = \<lparr>rand = (\<lambda>n. 150 + 7 * n), time = (\<lambda>n. int n), IsCancelled = (\<lambda>i. 2 \<le> i),
     Write = (\<lambda>n. True)\<rparr>"

definition pair_request :: PriceRequest where
  "pair_request = \<lparr>symbols = [''ETHUSDT'', ''BTCUSDT'', ''ETHUSDT'']\<rparr>"

section \<open>IEEE binary64 arithmetic\<close>

text \<open>
  The values of a C++ \<^verbatim>\<open>double\<close>: a finite value is carried by the real number it
  denotes (\<open>Finite 0\<close> is the positive zero), besides the negative zero, the two
  infinities and NaN. Every operation below rounds its exact result to the nearest
  double, ties to the even significand, as the default rounding mode does.
\<close>

datatype double = Finite real | NegZero | PosInf | NegInf | NaN

definition pow2 :: "int \<Rightarrow> real" where
  "pow2 k = (if 0 \<le> k then 2 ^ nat k else 1 / 2 ^ nat (- k))"

text \<open>For \<open>x > 0\<close>, the exponent \<open>e\<close> with \<open>2\<^sup>e \<le> x < 2\<^sup>e\<^sup>+\<^sup>1\<close>.\<close>

definition binade :: "real \<Rightarrow> int" where
  "binade x = (if 1 \<le> x then bitlen \<lfloor>x\<rfloor> - 1 else - bitlen (\<lceil>1 / x\<rceil> - 1))"

text \<open>The nearest integer, the even one of the two when \<open>x\<close> lies half way.\<close>

definition round_even :: "real \<Rightarrow> int" where
  "round_even x =
     (let f = \<lfloor>x\<rfloor>; d = x - of_int f
      in if d < 1 / 2 then f else if 1 / 2 < d then f + 1 else if even f then f else f + 1)"

text \<open>
  Rounding of a real number to a double: 53 significant bits, the spacing never finer
  than \<open>2\<^sup>-\<^sup>1\<^sup>0\<^sup>7\<^sup>4\<close> (subnormal numbers), an infinity once the rounded magnitude reaches
  \<open>2\<^sup>1\<^sup>0\<^sup>2\<^sup>4\<close>, and a zero of the sign of \<open>x\<close> when the magnitude rounds to nothing.
\<close>

definition round64 :: "real \<Rightarrow> double" where
  "round64 x =
     (if x = 0 then Finite 0
      else let q = pow2 (max (binade \<bar>x\<bar> - 52) (- 1074));
               y = of_int (round_even (\<bar>x\<bar> / q)) * q
           in if 2 ^ 1024 \<le> y then (if x < 0 then NegInf else PosInf)
              else if y = 0 then (if x < 0 then NegZero else Finite 0)
              else Finite (if x < 0 then - y else y))"

text \<open>Addition of doubles.\<close>

fun fadd :: "double \<Rightarrow> double \<Rightarrow> double" where
  "fadd NaN y = NaN"
| "fadd x NaN = NaN"
| "fadd PosInf NegInf = NaN"
| "fadd NegInf PosInf = NaN"
| "fadd PosInf y = PosInf"
| "fadd x PosInf = PosInf"
| "fadd NegInf y = NegInf"
| "fadd x NegInf = NegInf"
| "fadd NegZero y = y"
| "fadd x NegZero = x"
| "fadd (Finite a) (Finite b) = (if a + b = 0 then Finite 0 else round64 (a + b))"

text \<open>Sign bit, the classes of values, and the value a finite double denotes.\<close>

fun negative :: "double \<Rightarrow> bool" where
  "negative (Finite a) = (a < 0)"
| "negative NegZero = True"
| "negative NegInf = True"
| "negative PosInf = False"
| "negative NaN = False"

fun is_inf :: "double \<Rightarrow> bool" where
  "is_inf PosInf = True"
| "is_inf NegInf = True"
| "is_inf x = False"

fun is_zero :: "double \<Rightarrow> bool" where
  "is_zero (Finite a) = (a = 0)"
| "is_zero NegZero = True"
| "is_zero x = False"

fun exact :: "double \<Rightarrow> real" where
  "exact (Finite a) = a"
| "exact x = 0"

text \<open>Division of doubles.\<close>

definition fdiv :: "double \<Rightarrow> double \<Rightarrow> double" where
  "fdiv x y =
     (if x = NaN \<or> y = NaN then NaN
      else if is_inf x then
        (if is_inf y then NaN else if negative x = negative y then PosInf else NegInf)
      else if is_inf y then (if negative x = negative y then Finite 0 else NegZero)
      else if is_zero y then
        (if is_zero x then NaN else if negative x = negative y then PosInf else NegInf)
      else if is_zero x then (if negative x = negative y then Finite 0 else NegZero)
      else round64 (exact x / exact y))"

text \<open>Conversion of an \<^verbatim>\<open>int\<close> and of a \<^verbatim>\<open>size_t\<close> to \<^verbatim>\<open>double\<close>.\<close>

definition double_of_int :: "int \<Rightarrow> double" where
  "double_of_int i = round64 (of_int i)"

definition double_of_size :: "nat \<Rightarrow> double" where
  "double_of_size n = round64 (of_nat n)"

section \<open>SendPrice with double arithmetic\<close>

text \<open>
  \<^verbatim>\<open>PriceUpdate\<close>, the service object and the printed line once more, with the prices as
  doubles, and \<^verbatim>\<open>SendPrice\<close> on them line by line as before. The line holds the values
  handed to \<^verbatim>\<open>std::cout\<close>; how the stream writes a double in decimal digits (six
  significant ones by default) is not modelled.
\<close>

record PriceUpdate64 =
  symbol64 :: string
  price64 :: double
  timestamp64 :: int

record MarketDataServiceImpl64 =
  received_prices64 :: "PriceUpdate64 list"
  price_window64 :: "double list"

definition new_service64 :: MarketDataServiceImpl64 where
  "new_service64 = \<lparr>received_prices64 = [], price_window64 = []\<rparr>"

record log_line64 =
  log_symbol64 :: string
  log_price64 :: double
  log_window_size64 :: nat
  log_moving_avg64 :: double
  log_timestamp64 :: int

definition push_window64 :: "double list \<Rightarrow> double \<Rightarrow> double list" where
  "push_window64 w p =
     (let w1 = w @ [p]
      in if length w1 > WINDOW_SIZE then tl w1 else w1)"

text \<open>
  Lines 72 to 74: \<^verbatim>\<open>sum\<close> starts at \<open>0.0\<close> and takes the prices in deque order by
  \<^verbatim>\<open>sum += p\<close>; the quotient is by the size converted to \<^verbatim>\<open>double\<close>.
\<close>

definition moving_average64 :: "double list \<Rightarrow> double" where
  "moving_average64 w =
     (let sum = foldl fadd (Finite 0) w
      in if w = [] then Finite 0 else fdiv sum (double_of_size (length w)))"

definition SendPrice64 ::
  "MarketDataServiceImpl64 \<Rightarrow> PriceUpdate64 \<Rightarrow>
   MarketDataServiceImpl64 \<times> Status \<times> log_line64" where
  "SendPrice64 s request =
     (let received = received_prices64 s @ [request];
          window = push_window64 (price_window64 s) (price64 request);
          moving_avg = moving_average64 window;
          line = \<lparr>log_symbol64 = symbol64 request, log_price64 = price64 request,
                  log_window_size64 = length window, log_moving_avg64 = moving_avg,
                  log_timestamp64 = timestamp64 request\<rparr>
      in (s\<lparr>received_prices64 := received, price_window64 := window\<rparr>, OK, line))"

fun SendPrice64_calls ::
  "MarketDataServiceImpl64 \<Rightarrow> PriceUpdate64 list \<Rightarrow>
   MarketDataServiceImpl64 \<times> log_line64 list" where
  "SendPrice64_calls s [] = (s, [])"
| "SendPrice64_calls s (request # rest) =
     (case SendPrice64 s request of
        (s', _, line) \<Rightarrow>
          (case SendPrice64_calls s' rest of (s'', ls) \<Rightarrow> (s'', line # ls)))"

definition reported64 :: "PriceUpdate64 list \<Rightarrow> PriceUpdate64 \<Rightarrow> nat \<times> double" where
  "reported64 earlier request =
     (case SendPrice64 (fst (SendPrice64_calls new_service64 earlier)) request of
        (_, _, line) \<Rightarrow> (log_window_size64 line, log_moving_avg64 line))"

text \<open>A tick of a given price, and the mean of the values that doubles denote.\<close>

definition tick64 :: "real \<Rightarrow> PriceUpdate64" where
  "tick64 p = \<lparr>symbol64 = ''BTCUSDT'', price64 = Finite p, timestamp64 = 0\<rparr>"

definition exact_mean :: "double list \<Rightarrow> real" where
  "exact_mean ps = sum_list (map exact ps) / real (length ps)"

text \<open>The price \<open>2\<^sup>5\<^sup>3\<close> followed by 18 times the price 1, and the prices 1 to 20.\<close>

definition absorbing_ticks :: "PriceUpdate64 list" where
  "absorbing_ticks = tick64 (2 ^ 53) # replicate 18 (tick64 1)"

definition twenty_ticks64 :: "PriceUpdate64 list" where
  "twenty_ticks64 = map (\<lambda>i. tick64 (real i)) [1..<21]"

section \<open>StreamPrices with double arithmetic\<close>

text \<open>
  \<^verbatim>\<open>StreamPrices\<close> once more, line by line as before, with the prices as doubles: the
  map starts at \<open>100.0\<close>, the step of line 121 is a double, and line 122 adds it to the
  current price with rounding.
\<close>

record write_call64 =
  sent64 :: PriceUpdate64
  accepted64 :: bool

text \<open>Lines 100 to 103, every requested symbol at the double \<open>100.0\<close>.\<close>

fun init_prices64 ::
  "string list \<Rightarrow> (string \<times> double) list \<Rightarrow> (string \<times> double) list" where
  "init_prices64 [] symbol_prices = symbol_prices"
| "init_prices64 (s # rest) symbol_prices =
     init_prices64 rest (map_assign s (Finite 100) symbol_prices)"

text \<open>
  Line 121 for the value \<open>r\<close> of \<^verbatim>\<open>std::rand()\<close>: the \<^verbatim>\<open>int\<close> \<open>r % 200 - 100\<close> is converted
  to \<^verbatim>\<open>double\<close> and divided by \<open>100.0\<close>.
\<close>

definition price_step :: "nat \<Rightarrow> double" where
  "price_step r = fdiv (double_of_int (int r mod 200 - 100)) (Finite 100)"

text \<open>
  Lines 116 to 137, one run of the \<^verbatim>\<open>for\<close> loop: line 122 is a double addition.
\<close>

fun price_pass64 ::
  "env \<Rightarrow> nat \<Rightarrow> (string \<times> double) list \<Rightarrow>
   (string \<times> double) list \<times> write_call64 list" where
  "price_pass64 e n [] = ([], [])"
| "price_pass64 e n ((key, current_price) # rest) =
     (let change = price_step (rand e n);
          new_price = fadd current_price change;
          update = \<lparr>symbol64 = key, price64 = new_price, timestamp64 = time e n\<rparr>;
          call = \<lparr>sent64 = update, accepted64 = Write e n\<rparr>
      in case price_pass64 e (Suc n) rest of
           (rest', calls) \<Rightarrow> ((key, new_price) # rest', call # calls))"

text \<open>Lines 107 to 141, the \<^verbatim>\<open>while\<close> loop and the return.\<close>

partial_function (option) stream_loop64 ::
  "env \<Rightarrow> nat \<Rightarrow> nat \<Rightarrow> (string \<times> double) list \<Rightarrow> write_call64 list \<Rightarrow>
   (Status \<times> write_call64 list) option" where
  "stream_loop64 e iter n symbol_prices calls =
     (if IsCancelled e iter then Some (OK, calls)
      else case price_pass64 e n symbol_prices of
             (symbol_prices', new_calls) \<Rightarrow>
               stream_loop64 e (Suc iter) (n + length new_calls) symbol_prices'
                 (calls @ new_calls))"

declare stream_loop64.simps [code]

text \<open>The whole call, and the first \<open>k\<close> runs of the \<^verbatim>\<open>for\<close> loop.\<close>

definition StreamPrices64 ::
  "MarketDataServiceImpl64 \<Rightarrow> env \<Rightarrow> PriceRequest \<Rightarrow>
   (MarketDataServiceImpl64 \<times> Status \<times> write_call64 list) option" where
  "StreamPrices64 s e request =
     (let symbol_prices = init_prices64 (symbols request) []
      in case stream_loop64 e 0 0 symbol_prices [] of
           None \<Rightarrow> None
         | Some (status, calls) \<Rightarrow> Some (s, status, calls))"

fun passes64 ::
  "env \<Rightarrow> nat \<Rightarrow> nat \<Rightarrow> (string \<times> double) list \<Rightarrow>
   (string \<times> double) list \<times> write_call64 list" where
  "passes64 e 0 n symbol_prices = (symbol_prices, [])"
| "passes64 e (Suc k) n symbol_prices =
     (case price_pass64 e n symbol_prices of
        (symbol_prices', calls) \<Rightarrow>
          (case passes64 e k (n + length calls) symbol_prices' of
             (symbol_prices'', calls') \<Rightarrow> (symbol_prices'', calls @ calls')))"

section \<open>Facts about the window\<close>

lemma foldl_plus_sum_list: "foldl (+) a (w :: real list) = a + sum_list w"
  by (induction w arbitrary: a) simp_all

lemma moving_average_mean:
  "w \<noteq> [] \<Longrightarrow> moving_average w = sum_list w / real (length w)"
  by (simp add: moving_average_def foldl_plus_sum_list)

lemma push_window_nonempty: "push_window w p \<noteq> []"
  by (cases w) (auto simp: push_window_def WINDOW_SIZE_def Let_def)

lemma push_window_last_n:
  "length w \<le> WINDOW_SIZE \<Longrightarrow> push_window w p = last_n WINDOW_SIZE (w @ [p])"
  by (cases w) (auto simp: push_window_def last_n_def WINDOW_SIZE_def Let_def drop_Cons')

lemma last_n_append_last_n:
  "last_n n (last_n n xs @ ys) = last_n n (xs @ ys)"
proof (cases "n \<le> length xs")
  case True
  then have "length xs - (length xs - n) = n"
    by arith
  then show ?thesis
    using True by (simp add: last_n_def add.commute)
next
  case False
  then show ?thesis
    by (simp add: last_n_def)
qed

lemma length_last_n: "length (last_n n xs) = min n (length xs)"
  by (auto simp: last_n_def)

lemma SendPrice_window:
  "price_window (fst (SendPrice s request)) = push_window (price_window s) (price request)"
  by (simp add: SendPrice_def Let_def)

lemma SendPrice_calls_window:
  "length (price_window s) \<le> WINDOW_SIZE \<Longrightarrow>
   price_window (fst (SendPrice_calls s reqs)) =
     last_n WINDOW_SIZE (price_window s @ map price reqs)"
proof (induction reqs arbitrary: s)
  case Nil
  then show ?case by (simp add: last_n_def)
next
  case (Cons r reqs)
  let ?s' = "fst (SendPrice s r)"
  have w': "price_window ?s' = last_n WINDOW_SIZE (price_window s @ [price r])"
    using Cons.prems by (simp add: SendPrice_window push_window_last_n)
  then have len: "length (price_window ?s') \<le> WINDOW_SIZE"
    by (simp add: length_last_n)
  have "price_window (fst (SendPrice_calls s (r # reqs))) =
        price_window (fst (SendPrice_calls ?s' reqs))"
    by (simp split: prod.splits)
  also have "\<dots> = last_n WINDOW_SIZE (price_window ?s' @ map price reqs)"
    using Cons.IH [OF len] .
  also have "\<dots> = last_n WINDOW_SIZE (price_window s @ map price (r # reqs))"
    by (simp add: w' last_n_append_last_n)
  finally show ?case .
qed

lemma new_service_window:
  "price_window (fst (SendPrice_calls new_service reqs)) = last_n WINDOW_SIZE (map price reqs)"
  using SendPrice_calls_window [of new_service reqs] by (simp add: new_service_def)

lemma reported_eq:
  "reported earlier request =
     (min WINDOW_SIZE (Suc (length earlier)),
      sum_list (last_n WINDOW_SIZE (map price (earlier @ [request]))) /
        real (min WINDOW_SIZE (Suc (length earlier))))"
proof -
  let ?s = "fst (SendPrice_calls new_service earlier)"
  let ?w = "push_window (price_window ?s) (price request)"
  have len: "length (price_window ?s) \<le> WINDOW_SIZE"
    by (simp add: new_service_window length_last_n)
  have w: "?w = last_n WINDOW_SIZE (map price (earlier @ [request]))"
    using push_window_last_n [OF len, of "price request"]
    by (simp add: new_service_window last_n_append_last_n)
  have "reported earlier request = (length ?w, moving_average ?w)"
    by (simp add: reported_def SendPrice_def Let_def)
  also have "moving_average ?w = sum_list ?w / real (length ?w)"
    by (rule moving_average_mean) (rule push_window_nonempty)
  finally show ?thesis
    by (simp add: w length_last_n)
qed

lemma length_twenty_ticks: "length twenty_ticks = 20"
  by (simp add: twenty_ticks_def)

section \<open>Facts about the map of prices\<close>

lemma map_assign_keys: "fst ` set (map_assign k v m) = insert k (fst ` set m)"
proof (induction m)
  case Nil
  then show ?case by simp
next
  case (Cons a m)
  obtain k' v' where p: "a = (k', v')" by (cases a)
  show ?case
    using Cons.IH by (simp add: p insert_commute)
qed

lemma map_assign_sorted:
  "sorted_wrt (<) (map fst m) \<Longrightarrow> sorted_wrt (<) (map fst (map_assign k v m))"
proof (induction m)
  case Nil
  then show ?case by simp
next
  case (Cons a m)
  obtain k' v' where a: "a = (k', v')" by (cases a)
  from Cons.prems have gt: "\<forall>x\<in>fst ` set m. k' < x" and srt: "sorted_wrt (<) (map fst m)"
    by (auto simp: a)
  show ?case
  proof (cases "k < k'")
    case True
    then have "\<forall>x\<in>fst ` set m. k < x" using gt by fastforce
    then show ?thesis using True gt srt by (simp add: a)
  next
    case False
    show ?thesis
    proof (cases "k = k'")
      case True
      then show ?thesis using gt srt by (simp add: a)
    next
      case ne: False
      then have "k' < k" using False by simp
      then have "\<forall>x\<in>fst ` set (map_assign k v m). k' < x"
        using gt by (simp add: map_assign_keys)
      then show ?thesis
        using False ne Cons.IH [OF srt] by (simp add: a)
    qed
  qed
qed

lemma map_assign_values:
  "\<forall>x\<in>set m. snd x = v \<Longrightarrow> \<forall>x\<in>set (map_assign k v m). snd x = v"
proof (induction m)
  case Nil
  then show ?case by simp
next
  case (Cons a m)
  then have a: "snd a = v" and m: "\<forall>x\<in>set (map_assign k v m). snd x = v"
    by simp_all
  obtain k' v' where p: "a = (k', v')" by (cases a)
  show ?case
    using a m Cons.prems by (simp add: p)
qed

text \<open>
  Assigning to the key of the entry an iterator stands on replaces that entry where it
  is: this is the assignment of line 136, which \<open>price_pass\<close> performs in place.
\<close>

lemma map_assign_in_place:
  "sorted_wrt (<) (map fst m) \<Longrightarrow> i < length m \<Longrightarrow>
   map_assign (fst (m ! i)) v m = m[i := (fst (m ! i), v)]"
proof (induction m arbitrary: i)
  case Nil
  then show ?case by simp
next
  case (Cons a m)
  obtain k' v' where a: "a = (k', v')" by (cases a)
  from Cons.prems(1) have gt: "\<forall>x\<in>set m. k' < fst x" and srt: "sorted_wrt (<) (map fst m)"
    by (simp_all add: a)
  show ?case
  proof (cases i)
    case 0
    then show ?thesis by (simp add: a)
  next
    case (Suc i')
    then have i': "i' < length m" using Cons.prems(2) by simp
    then have "m ! i' \<in> set m" by simp
    then have lt: "k' < fst (m ! i')" using gt by blast
    then have "\<not> fst (m ! i') < k'" "fst (m ! i') \<noteq> k'" by auto
    then show ?thesis
      using Cons.IH [OF srt i'] by (simp add: a Suc)
  qed
qed

lemma init_prices_inv:
  "sorted_wrt (<) (map fst m) \<Longrightarrow> \<forall>x\<in>set m. snd x = 100 \<Longrightarrow>
   sorted_wrt (<) (map fst (init_prices ss m)) \<and>
   (\<forall>x\<in>set (init_prices ss m). snd x = 100) \<and>
   fst ` set (init_prices ss m) = set ss \<union> fst ` set m"
proof (induction ss arbitrary: m)
  case Nil
  then show ?case by simp
next
  case (Cons a ss)
  have 1: "sorted_wrt (<) (map fst (map_assign a 100 m))"
    using Cons.prems(1) by (rule map_assign_sorted)
  have 2: "\<forall>x\<in>set (map_assign a 100 m). snd x = 100"
    using Cons.prems(2) by (rule map_assign_values)
  show ?case
    using Cons.IH [OF 1 2] by (simp add: map_assign_keys)
qed

lemma init_prices_tracked:
  "init_prices (symbols request) [] = map (\<lambda>k. (k, 100)) (tracked_symbols request)"
proof -
  let ?m = "init_prices (symbols request) []"
  have inv: "sorted_wrt (<) (map fst ?m)" "\<forall>x\<in>set ?m. snd x = 100"
    "fst ` set ?m = set (symbols request)"
    using init_prices_inv [of "[]" "symbols request"] by simp_all
  from inv(1) have "sorted (map fst ?m)" "distinct (map fst ?m)"
    by (simp_all add: strict_sorted_iff)
  then have "sorted_list_of_set (set (map fst ?m)) = map fst ?m"
    by (rule sorted_list_of_set.idem_if_sorted_distinct)
  then have keys: "map fst ?m = tracked_symbols request"
    by (simp add: tracked_symbols_def inv(3))
  have "\<forall>x\<in>set xs. snd x = (100::real) \<Longrightarrow> xs = map (\<lambda>k. (k, 100)) (map fst xs)"
    for xs :: "(string \<times> real) list"
    by (induction xs) auto
  then have "?m = map (\<lambda>k. (k, 100)) (map fst ?m)"
    using inv(2) by blast
  then show ?thesis
    by (simp only: keys)
qed

section \<open>Facts about the loops\<close>

lemma price_pass_lengths:
  "length (fst (price_pass e n m)) = length m \<and> length (snd (price_pass e n m)) = length m"
proof (induction m arbitrary: n)
  case Nil
  then show ?case by simp
next
  case (Cons a m)
  obtain key p where a: "a = (key, p)" by (cases a)
  obtain m' cs where pp: "price_pass e (Suc n) m = (m', cs)" by (cases "price_pass e (Suc n) m")
  show ?case
    using Cons.IH [of "Suc n"] by (simp add: a pp Let_def)
qed

lemma price_pass_keys: "map fst (fst (price_pass e n m)) = map fst m"
proof (induction m arbitrary: n)
  case Nil
  then show ?case by simp
next
  case (Cons a m)
  obtain key p where a: "a = (key, p)" by (cases a)
  obtain m' cs where pp: "price_pass e (Suc n) m = (m', cs)" by (cases "price_pass e (Suc n) m")
  show ?case
    using Cons.IH [of "Suc n"] by (simp add: a pp Let_def)
qed

lemma passes_keys: "map fst (fst (passes e k n m)) = map fst m"
proof (induction k arbitrary: n m)
  case 0
  then show ?case by simp
next
  case (Suc k)
  obtain m' cs where pp: "price_pass e n m = (m', cs)" by (cases "price_pass e n m")
  obtain m'' cs' where ps: "passes e k (n + length cs) m' = (m'', cs')"
    by (cases "passes e k (n + length cs) m'")
  have "map fst m' = map fst m" using price_pass_keys [of e n m] by (simp add: pp)
  then show ?case
    using Suc.IH [of "n + length cs" m'] by (simp add: pp ps)
qed

lemma passes_length: "length (snd (passes e k n m)) = k * length m"
proof (induction k arbitrary: n m)
  case 0
  then show ?case by simp
next
  case (Suc k)
  obtain m' cs where pp: "price_pass e n m = (m', cs)" by (cases "price_pass e n m")
  have l: "length m' = length m" "length cs = length m"
    using price_pass_lengths [of e n m] by (simp_all add: pp)
  obtain m'' cs' where ps: "passes e k (n + length m) m' = (m'', cs')"
    by (cases "passes e k (n + length m) m'")
  show ?case
    using Suc.IH [of "n + length m" m'] by (simp add: pp ps l)
qed

lemma stream_loop_cancelled:
  "IsCancelled e (iter + k) \<Longrightarrow> \<forall>j<k. \<not> IsCancelled e (iter + j) \<Longrightarrow>
   stream_loop e iter n m calls = Some (OK, calls @ snd (passes e k n m))"
proof (induction k arbitrary: iter n m calls)
  case 0
  then show ?case by (simp add: stream_loop.simps)
next
  case (Suc k)
  obtain m' cs where pp: "price_pass e n m = (m', cs)" by (cases "price_pass e n m")
  have nc: "\<not> IsCancelled e iter" using Suc.prems(2) by force
  have c: "IsCancelled e (Suc iter + k)" using Suc.prems(1) by simp
  have n: "\<forall>j<k. \<not> IsCancelled e (Suc iter + j)"
  proof (intro allI impI)
    fix j assume "j < k"
    then have "Suc j < Suc k" by simp
    then have "\<not> IsCancelled e (iter + Suc j)" using Suc.prems(2) by blast
    then show "\<not> IsCancelled e (Suc iter + j)" by simp
  qed
  have "stream_loop e iter n m calls =
        stream_loop e (Suc iter) (n + length cs) m' (calls @ cs)"
    using nc pp by (subst stream_loop.simps) simp
  also have "\<dots> = Some (OK, (calls @ cs) @ snd (passes e k (n + length cs) m'))"
    using c n by (rule Suc.IH)
  finally show ?case
    by (simp add: pp split: prod.splits)
qed

lemma stream_loop_returns:
  assumes "stream_loop e iter n m calls = Some res"
  shows "\<exists>k. IsCancelled e (iter + k)"
proof (rule stream_loop.raw_induct
    [where P = "\<lambda>e iter n m calls res. \<exists>k. IsCancelled e (iter + k)", OF _ assms])
  fix f e iter n m calls y
  assume IH: "\<And>e iter n m calls y. f e iter n m calls = Some y \<Longrightarrow> \<exists>k. IsCancelled e (iter + k)"
    and step: "(if IsCancelled e iter then Some (OK, calls)
      else case price_pass e n m of
             (m', new_calls) \<Rightarrow> f e (Suc iter) (n + length new_calls) m' (calls @ new_calls)) = Some y"
  show "\<exists>k. IsCancelled e (iter + k)"
  proof (cases "IsCancelled e iter")
    case True
    then have "IsCancelled e (iter + 0)" by simp
    then show ?thesis by blast
  next
    case False
    obtain m' cs where pp: "price_pass e n m = (m', cs)"
      by (cases "price_pass e n m")
    from step False pp have "f e (Suc iter) (n + length cs) m' (calls @ cs) = Some y"
      by simp
    then obtain k where "IsCancelled e (Suc iter + k)" using IH by blast
    then have "IsCancelled e (iter + Suc k)" by simp
    then show ?thesis by blast
  qed
qed

section \<open>Facts about the whole call\<close>




lemma StreamPrices_cancelled:
  assumes "IsCancelled e k" and "\<forall>j<k. \<not> IsCancelled e j"
  shows "StreamPrices s e request =
    Some (s, OK, snd (passes e k 0 (map (\<lambda>k. (k, 100)) (tracked_symbols request))))"
proof -
  have "stream_loop e 0 0 (init_prices (symbols request) []) [] =
    Some (OK, [] @ snd (passes e k 0 (init_prices (symbols request) [])))"
    using assms by (intro stream_loop_cancelled) simp_all
  then show ?thesis
    by (simp add: StreamPrices_def init_prices_tracked)
qed

lemma first_cancellation:
  assumes "\<exists>k. IsCancelled e k"
  shows "\<exists>k. IsCancelled e k \<and> (\<forall>j<k. \<not> IsCancelled e j)"
proof -
  let ?k = "LEAST k. IsCancelled e k"
  from assms have "IsCancelled e ?k" by (auto intro: LeastI)
  moreover have "\<forall>j<?k. \<not> IsCancelled e j" using not_less_Least by blast
  ultimately show ?thesis by blast
qed

lemma StreamPrices_returns:
  "StreamPrices s e request \<noteq> None \<longleftrightarrow> (\<exists>k. IsCancelled e k)"
proof
  assume "StreamPrices s e request \<noteq> None"
  then obtain res where "stream_loop e 0 0 (init_prices (symbols request) []) [] = Some res"
    by (auto simp: StreamPrices_def split: option.splits)
  then have "\<exists>k. IsCancelled e (0 + k)" by (rule stream_loop_returns)
  then show "\<exists>k. IsCancelled e k" by simp
next
  assume "\<exists>k. IsCancelled e k"
  then obtain k where "IsCancelled e k" "\<forall>j<k. \<not> IsCancelled e j"
    using first_cancellation by blast
  then show "StreamPrices s e request \<noteq> None"
    by (simp add: StreamPrices_cancelled)
qed

lemma price_pass_Write:
  "fst (price_pass (e\<lparr>Write := w\<rparr>) n m) = fst (price_pass e n m) \<and>
   map sent (snd (price_pass (e\<lparr>Write := w\<rparr>) n m)) = map sent (snd (price_pass e n m))"
proof (induction m arbitrary: n)
  case Nil
  then show ?case by simp
next
  case (Cons a m)
  obtain key p where a: "a = (key, p)" by (cases a)
  obtain m1 cs1 where p1: "price_pass e (Suc n) m = (m1, cs1)"
    by (cases "price_pass e (Suc n) m")
  obtain m2 cs2 where p2: "price_pass (e\<lparr>Write := w\<rparr>) (Suc n) m = (m2, cs2)"
    by (cases "price_pass (e\<lparr>Write := w\<rparr>) (Suc n) m")
  show ?case
    using Cons.IH [of "Suc n"] by (simp add: a p1 p2 Let_def)
qed

lemma passes_Write:
  "map sent (snd (passes (e\<lparr>Write := w\<rparr>) k n m)) = map sent (snd (passes e k n m))"
proof (induction k arbitrary: n m)
  case 0
  then show ?case by simp
next
  case (Suc k)
  obtain m1 cs1 where p1: "price_pass e n m = (m1, cs1)" by (cases "price_pass e n m")
  obtain m2 cs2 where p2: "price_pass (e\<lparr>Write := w\<rparr>) n m = (m2, cs2)"
    by (cases "price_pass (e\<lparr>Write := w\<rparr>) n m")
  have eq: "m2 = m1" "map sent cs2 = map sent cs1"
    using price_pass_Write [where e = e and w = w and n = n and m = m]
    by (simp_all add: p1 p2)
  then have "length (map sent cs2) = length (map sent cs1)" by simp
  then have len: "length cs2 = length cs1" by simp
  obtain m1' cs1' where q1: "passes e k (n + length cs1) m1 = (m1', cs1')"
    by (cases "passes e k (n + length cs1) m1")
  obtain m2' cs2' where q2: "passes (e\<lparr>Write := w\<rparr>) k (n + length cs1) m1 = (m2', cs2')"
    by (cases "passes (e\<lparr>Write := w\<rparr>) k (n + length cs1) m1")
  show ?case
    using Suc.IH [of "n + length cs1" m1] by (simp add: p1 p2 eq len q1 q2)
qed

lemma client_gone_first: "IsCancelled client_gone 2 \<and> (\<forall>j<2. \<not> IsCancelled client_gone j)"
  by (simp add: client_gone_def)

lemma two_rounds_first: "IsCancelled two_rounds 2 \<and> (\<forall>j<2. \<not> IsCancelled two_rounds j)"
  by (simp add: two_rounds_def)

lemma tracked_btc: "tracked_symbols btc_request = [''BTCUSDT'']"
  by (simp add: tracked_symbols_def btc_request_def)

lemma tracked_pair: "tracked_symbols pair_request = [''BTCUSDT'', ''ETHUSDT'']"
  by (simp only: tracked_symbols_def pair_request_def PriceRequest.select_convs
      sorted_list_of_set_sort_remdups) simp

lemma client_gone_run:
  "StreamPrices s client_gone btc_request =
     Some (s, OK,
       [\<lparr>sent = \<lparr>symbol = ''BTCUSDT'', price = 201 / 2, timestamp = 0\<rparr>, accepted = False\<rparr>,
        \<lparr>sent = \<lparr>symbol = ''BTCUSDT'', price = 101, timestamp = 0\<rparr>, accepted = False\<rparr>])"
proof -
  have "StreamPrices s client_gone btc_request =
    Some (s, OK, snd (passes client_gone 2 0 (map (\<lambda>k. (k, 100)) (tracked_symbols btc_request))))"
    using client_gone_first by (intro StreamPrices_cancelled) simp_all
  also have "snd (passes client_gone 2 0 (map (\<lambda>k. (k, 100)) (tracked_symbols btc_request))) =
       [\<lparr>sent = \<lparr>symbol = ''BTCUSDT'', price = 201 / 2, timestamp = 0\<rparr>, accepted = False\<rparr>,
        \<lparr>sent = \<lparr>symbol = ''BTCUSDT'', price = 101, timestamp = 0\<rparr>, accepted = False\<rparr>]"
    by (simp add: tracked_btc numeral_2_eq_2 client_gone_def price_change_def Let_def)
  finally show ?thesis .
qed

lemma price_pass_rand:
  "rand e1 = rand e2 \<Longrightarrow>
   fst (price_pass e1 n m) = fst (price_pass e2 n m) \<and>
   map quote (snd (price_pass e1 n m)) = map quote (snd (price_pass e2 n m))"
proof (induction m arbitrary: n)
  case Nil
  then show ?case by simp
next
  case (Cons a m)
  obtain key p where a: "a = (key, p)" by (cases a)
  obtain m1 cs1 where p1: "price_pass e1 (Suc n) m = (m1, cs1)"
    by (cases "price_pass e1 (Suc n) m")
  obtain m2 cs2 where p2: "price_pass e2 (Suc n) m = (m2, cs2)"
    by (cases "price_pass e2 (Suc n) m")
  show ?case
    using Cons.IH [OF Cons.prems, of "Suc n"] Cons.prems
    by (simp add: a p1 p2 Let_def quote_def)
qed

lemma passes_rand:
  "rand e1 = rand e2 \<Longrightarrow>
   map quote (snd (passes e1 k n m)) = map quote (snd (passes e2 k n m))"
proof (induction k arbitrary: n m)
  case 0
  then show ?case by simp
next
  case (Suc k)
  obtain m1 cs1 where p1: "price_pass e1 n m = (m1, cs1)" by (cases "price_pass e1 n m")
  obtain m2 cs2 where p2: "price_pass e2 n m = (m2, cs2)" by (cases "price_pass e2 n m")
  have eq: "m1 = m2" "map quote cs1 = map quote cs2"
    using price_pass_rand [OF Suc.prems, of n m] by (simp_all add: p1 p2)
  then have "length (map quote cs1) = length (map quote cs2)" by simp
  then have len: "length cs1 = length cs2" by simp
  obtain m1' cs1' where q1: "passes e1 k (n + length cs2) m2 = (m1', cs1')"
    by (cases "passes e1 k (n + length cs2) m2")
  obtain m2' cs2' where q2: "passes e2 k (n + length cs2) m2 = (m2', cs2')"
    by (cases "passes e2 k (n + length cs2) m2")
  show ?case
    using Suc.IH [OF Suc.prems, of "n + length cs2" m2] by (simp add: p1 p2 eq len q1 q2)
qed

lemma emitted_prices_same_draws:
  assumes r: "rand e1 = rand e2" and c: "IsCancelled e1 = IsCancelled e2"
  shows "emitted_prices (StreamPrices s1 e1 request) = emitted_prices (StreamPrices s2 e2 request)"
proof (cases "\<exists>k. IsCancelled e1 k")
  case True
  then obtain k where k1: "IsCancelled e1 k" "\<forall>j<k. \<not> IsCancelled e1 j"
    using first_cancellation by blast
  then have k2: "IsCancelled e2 k" "\<forall>j<k. \<not> IsCancelled e2 j"
    using c by simp_all
  show ?thesis
    using passes_rand [OF r]
    by (simp add: StreamPrices_cancelled [OF k1] StreamPrices_cancelled [OF k2] emitted_prices_def)
next
  case False
  then have "StreamPrices s1 e1 request = None"
    using StreamPrices_returns [of s1 e1 request] by blast
  moreover have "\<not> (\<exists>k. IsCancelled e2 k)"
    using False c by simp
  then have "StreamPrices s2 e2 request = None"
    using StreamPrices_returns [of s2 e2 request] by blast
  ultimately show ?thesis by simp
qed

lemma used_service_window: "price_window used_service = [10]"
  by (simp add: used_service_def SendPrice_def push_window_def WINDOW_SIZE_def new_service_def
      Let_def)

section \<open>Facts about double arithmetic\<close>

lemma bitlen_numeral_step: "bitlen (numeral n) = bitlen (numeral n div 2) + 1"
  by (subst compute_bitlen) simp

lemma bitlen_one: "bitlen 1 = 1"
  by (subst compute_bitlen) simp

lemmas round64_eval =
  round64_def binade_def round_even_def pow2_def Let_def bitlen_numeral_step bitlen_one

lemma binade_bounds:
  assumes "0 < x"
  shows "pow2 (binade x) \<le> x \<and> x < pow2 (binade x + 1)"
proof (cases "1 \<le> x")
  case True
  let ?n = "\<lfloor>x\<rfloor>"
  have n: "0 < ?n" using True by simp
  then have b: "1 \<le> bitlen ?n" by (auto simp: bitlen_alt_def)
  from bitlen_bounds [OF n] have lo: "2 ^ nat (bitlen ?n - 1) \<le> ?n" and hi: "?n < 2 ^ nat (bitlen ?n)"
    by simp_all
  have "real_of_int (2 ^ nat (bitlen ?n - 1)) \<le> real_of_int ?n" using lo by linarith
  also have "\<dots> \<le> x" by simp
  finally have 1: "2 ^ nat (bitlen ?n - 1) \<le> x" by simp
  have "?n + 1 \<le> 2 ^ nat (bitlen ?n)" using hi by simp
  then have "real_of_int (?n + 1) \<le> real_of_int (2 ^ nat (bitlen ?n))" by linarith
  then have h1: "real_of_int (?n + 1) \<le> 2 ^ nat (bitlen ?n)" by simp
  have h2: "x < real_of_int (?n + 1)" by linarith
  have 2: "x < 2 ^ nat (bitlen ?n)" by (rule less_le_trans [OF h2 h1])
  show ?thesis
    using True b 1 2 by (simp add: binade_def pow2_def)
next
  case False
  let ?z = "1 / x"
  let ?m = "\<lceil>?z\<rceil> - 1"
  let ?k = "bitlen ?m"
  have z: "1 < ?z" using False assms by simp
  then have m: "0 < ?m" by linarith
  then have k: "1 \<le> ?k" by (auto simp: bitlen_alt_def)
  from bitlen_bounds [OF m] have lo: "2 ^ nat (?k - 1) \<le> ?m" and hi: "?m < 2 ^ nat ?k"
    by simp_all
  have "?m + 1 \<le> 2 ^ nat ?k" using hi by simp
  then have "real_of_int (?m + 1) \<le> real_of_int (2 ^ nat ?k)" by linarith
  then have h1: "real_of_int (?m + 1) \<le> 2 ^ nat ?k" by simp
  have h2: "?z \<le> real_of_int (?m + 1)" by linarith
  have zk: "?z \<le> 2 ^ nat ?k" by (rule order_trans [OF h2 h1])
  have "real_of_int (2 ^ nat (?k - 1)) \<le> real_of_int ?m" using lo by linarith
  then have h3: "2 ^ nat (?k - 1) \<le> real_of_int ?m" by simp
  have h4: "real_of_int ?m < ?z" by linarith
  have kz: "2 ^ nat (?k - 1) < ?z" by (rule le_less_trans [OF h3 h4])
  have 1: "1 / 2 ^ nat ?k \<le> x"
  proof -
    have "1 \<le> x * 2 ^ nat ?k" using zk assms by (simp add: field_simps)
    then show ?thesis by (simp add: field_simps)
  qed
  have 2: "x < 1 / 2 ^ nat (?k - 1)"
  proof -
    have "x * 2 ^ nat (?k - 1) < 1" using kz assms by (simp add: field_simps)
    then show ?thesis by (simp add: field_simps)
  qed
  have e: "binade x = - ?k" using False by (simp add: binade_def)
  have p1: "pow2 (- ?k) = 1 / 2 ^ nat ?k" using k by (simp add: pow2_def)
  have p2: "pow2 (- ?k + 1) = 1 / 2 ^ nat (?k - 1)"
  proof (cases "?k = 1")
    case True
    then show ?thesis by (simp add: pow2_def)
  next
    case False
    then have "1 < ?k" using k by simp
    then have "nat (- (- ?k + 1)) = nat (?k - 1)" by simp
    then show ?thesis using \<open>1 < ?k\<close> by (simp add: pow2_def)
  qed
  show ?thesis
    unfolding e using 1 2 by (simp only: p1 p2)
qed

lemma round64_tenth: "round64 (1 / 10) = Finite (3602879701896397 / 36028797018963968)"
  by (simp add: round64_eval)

lemma round64_tie_even: "round64 (2 ^ 53 + 1) = Finite (2 ^ 53) \<and> round64 (2 ^ 53 + 3) = Finite (2 ^ 53 + 4)"
  by (simp add: round64_eval)

lemma overflow_add: "fadd (Finite (2 ^ 1023)) (Finite (2 ^ 1023)) = PosInf"
  by (simp add: round64_eval)

section \<open>Facts about SendPrice with double arithmetic\<close>

lemma push_window64_nonempty: "push_window64 w p \<noteq> []"
  by (cases w) (auto simp: push_window64_def WINDOW_SIZE_def Let_def)

lemma push_window64_last_n:
  "length w \<le> WINDOW_SIZE \<Longrightarrow> push_window64 w p = last_n WINDOW_SIZE (w @ [p])"
  by (cases w) (auto simp: push_window64_def last_n_def WINDOW_SIZE_def Let_def drop_Cons')

lemma SendPrice64_window:
  "price_window64 (fst (SendPrice64 s request)) =
     push_window64 (price_window64 s) (price64 request)"
  by (simp add: SendPrice64_def Let_def)

lemma SendPrice64_calls_window:
  "length (price_window64 s) \<le> WINDOW_SIZE \<Longrightarrow>
   price_window64 (fst (SendPrice64_calls s reqs)) =
     last_n WINDOW_SIZE (price_window64 s @ map price64 reqs)"
proof (induction reqs arbitrary: s)
  case Nil
  then show ?case by (simp add: last_n_def)
next
  case (Cons r reqs)
  let ?s' = "fst (SendPrice64 s r)"
  have w': "price_window64 ?s' = last_n WINDOW_SIZE (price_window64 s @ [price64 r])"
    using Cons.prems by (simp add: SendPrice64_window push_window64_last_n)
  then have len: "length (price_window64 ?s') \<le> WINDOW_SIZE"
    by (simp add: length_last_n)
  have "price_window64 (fst (SendPrice64_calls s (r # reqs))) =
        price_window64 (fst (SendPrice64_calls ?s' reqs))"
    by (simp split: prod.splits)
  also have "\<dots> = last_n WINDOW_SIZE (price_window64 ?s' @ map price64 reqs)"
    using Cons.IH [OF len] .
  also have "\<dots> = last_n WINDOW_SIZE (price_window64 s @ map price64 (r # reqs))"
    by (simp add: w' last_n_append_last_n)
  finally show ?case .
qed

lemma reported64_eq:
  "reported64 earlier request =
     (min WINDOW_SIZE (Suc (length earlier)),
      moving_average64 (last_n WINDOW_SIZE (map price64 (earlier @ [request]))))"
proof -
  let ?s = "fst (SendPrice64_calls new_service64 earlier)"
  let ?w = "push_window64 (price_window64 ?s) (price64 request)"
  have win: "price_window64 ?s = last_n WINDOW_SIZE (map price64 earlier)"
    using SendPrice64_calls_window [of new_service64 earlier] by (simp add: new_service64_def)
  then have len: "length (price_window64 ?s) \<le> WINDOW_SIZE"
    by (simp add: length_last_n)
  have w: "?w = last_n WINDOW_SIZE (map price64 (earlier @ [request]))"
    using push_window64_last_n [OF len, of "price64 request"]
    by (simp add: win last_n_append_last_n)
  have "reported64 earlier request = (length ?w, moving_average64 ?w)"
    by (simp add: reported64_def SendPrice64_def Let_def)
  then show ?thesis
    by (simp add: w length_last_n)
qed

lemma double_of_size_20: "double_of_size 20 = Finite 20"
  by (simp add: double_of_size_def round64_eval)

lemma moving_average64_full:
  "length w = 20 \<Longrightarrow> moving_average64 w = fdiv (foldl fadd (Finite 0) w) (Finite 20)"
  by (auto simp: moving_average64_def double_of_size_20)

lemma absorb_ones:
  "foldl fadd (Finite (2 ^ 53)) (replicate n (Finite 1)) = Finite (2 ^ 53)"
proof (induction n)
  case 0
  then show ?case by simp
next
  case (Suc n)
  have "fadd (Finite (2 ^ 53)) (Finite 1) = Finite (2 ^ 53)"
    by (simp add: round64_eval)
  then show ?case using Suc by simp
qed

lemma absorbing_prices:
  "map price64 (absorbing_ticks @ [tick64 1]) = Finite (2 ^ 53) # replicate 19 (Finite 1)"
proof -
  have "replicate 18 (Finite 1) @ [Finite 1] = replicate (Suc 18) (Finite (1::real))"
    by (simp only: replicate_append_same replicate_Suc)
  then show ?thesis
    by (simp add: absorbing_ticks_def tick64_def)
qed

lemma sum_twenty_ticks64:
  "foldl fadd (Finite 0) (map price64 (tl twenty_ticks64 @ [tick64 21])) = Finite 230"
  by (simp add: twenty_ticks64_def tick64_def upt_conv_Cons round64_eval)

section \<open>Facts about StreamPrices with double arithmetic\<close>

lemma init_prices64_inv:
  "sorted_wrt (<) (map fst m) \<Longrightarrow> \<forall>x\<in>set m. snd x = Finite 100 \<Longrightarrow>
   sorted_wrt (<) (map fst (init_prices64 ss m)) \<and>
   (\<forall>x\<in>set (init_prices64 ss m). snd x = Finite 100) \<and>
   fst ` set (init_prices64 ss m) = set ss \<union> fst ` set m"
proof (induction ss arbitrary: m)
  case Nil
  then show ?case by simp
next
  case (Cons a ss)
  have 1: "sorted_wrt (<) (map fst (map_assign a (Finite 100) m))"
    using Cons.prems(1) by (rule map_assign_sorted)
  have 2: "\<forall>x\<in>set (map_assign a (Finite 100) m). snd x = Finite 100"
    using Cons.prems(2) by (rule map_assign_values)
  show ?case
    using Cons.IH [OF 1 2] by (simp add: map_assign_keys)
qed

lemma init_prices64_tracked:
  "init_prices64 (symbols request) [] = map (\<lambda>k. (k, Finite 100)) (tracked_symbols request)"
proof -
  let ?m = "init_prices64 (symbols request) []"
  have inv: "sorted_wrt (<) (map fst ?m)" "\<forall>x\<in>set ?m. snd x = Finite 100"
    "fst ` set ?m = set (symbols request)"
    using init_prices64_inv [of "[]" "symbols request"] by simp_all
  from inv(1) have "sorted (map fst ?m)" "distinct (map fst ?m)"
    by (simp_all add: strict_sorted_iff)
  then have "sorted_list_of_set (set (map fst ?m)) = map fst ?m"
    by (rule sorted_list_of_set.idem_if_sorted_distinct)
  then have keys: "map fst ?m = tracked_symbols request"
    by (simp add: tracked_symbols_def inv(3))
  have "\<forall>x\<in>set xs. snd x = Finite 100 \<Longrightarrow> xs = map (\<lambda>k. (k, Finite 100)) (map fst xs)"
    for xs :: "(string \<times> double) list"
    by (induction xs) auto
  then have "?m = map (\<lambda>k. (k, Finite 100)) (map fst ?m)"
    using inv(2) by blast
  then show ?thesis
    by (simp only: keys)
qed

lemma price_pass64_lengths:
  "length (fst (price_pass64 e n m)) = length m \<and> length (snd (price_pass64 e n m)) = length m"
proof (induction m arbitrary: n)
  case Nil
  then show ?case by simp
next
  case (Cons a m)
  obtain key p where a: "a = (key, p)" by (cases a)
  obtain m' cs where pp: "price_pass64 e (Suc n) m = (m', cs)"
    by (cases "price_pass64 e (Suc n) m")
  show ?case
    using Cons.IH [of "Suc n"] by (simp add: a pp Let_def)
qed

lemma price_pass64_keys: "map fst (fst (price_pass64 e n m)) = map fst m"
proof (induction m arbitrary: n)
  case Nil
  then show ?case by simp
next
  case (Cons a m)
  obtain key p where a: "a = (key, p)" by (cases a)
  obtain m' cs where pp: "price_pass64 e (Suc n) m = (m', cs)"
    by (cases "price_pass64 e (Suc n) m")
  show ?case
    using Cons.IH [of "Suc n"] by (simp add: a pp Let_def)
qed

lemma price_pass64_nth_price:
  "i < length m \<Longrightarrow>
   snd (fst (price_pass64 e n m) ! i) = fadd (snd (m ! i)) (price_step (rand e (n + i)))"
proof (induction m arbitrary: n i)
  case Nil
  then show ?case by simp
next
  case (Cons a m)
  obtain key p where a: "a = (key, p)" by (cases a)
  obtain m' cs where pp: "price_pass64 e (Suc n) m = (m', cs)"
    by (cases "price_pass64 e (Suc n) m")
  show ?case
  proof (cases i)
    case 0
    then show ?thesis by (simp add: a pp Let_def)
  next
    case (Suc i')
    then have "i' < length m" using Cons.prems by simp
    from Cons.IH [OF this, of "Suc n"] show ?thesis
      by (simp add: a pp Let_def Suc)
  qed
qed

lemma price_pass64_nth_call:
  "i < length m \<Longrightarrow>
   snd (price_pass64 e n m) ! i =
     \<lparr>sent64 = \<lparr>symbol64 = fst (m ! i),
                 price64 = fadd (snd (m ! i)) (price_step (rand e (n + i))),
                 timestamp64 = time e (n + i)\<rparr>,
      accepted64 = Write e (n + i)\<rparr>"
proof (induction m arbitrary: n i)
  case Nil
  then show ?case by simp
next
  case (Cons a m)
  obtain key p where a: "a = (key, p)" by (cases a)
  obtain m' cs where pp: "price_pass64 e (Suc n) m = (m', cs)"
    by (cases "price_pass64 e (Suc n) m")
  show ?case
  proof (cases i)
    case 0
    then show ?thesis by (simp add: a pp Let_def)
  next
    case (Suc i')
    then have "i' < length m" using Cons.prems by simp
    from Cons.IH [OF this, of "Suc n"] show ?thesis
      by (simp add: a pp Let_def Suc)
  qed
qed

lemma passes64_length: "length (snd (passes64 e k n m)) = k * length m"
proof (induction k arbitrary: n m)
  case 0
  then show ?case by simp
next
  case (Suc k)
  obtain m' cs where pp: "price_pass64 e n m = (m', cs)" by (cases "price_pass64 e n m")
  have l: "length m' = length m" "length cs = length m"
    using price_pass64_lengths [of e n m] by (simp_all add: pp)
  obtain m'' cs' where ps: "passes64 e k (n + length m) m' = (m'', cs')"
    by (cases "passes64 e k (n + length m) m'")
  show ?case
    using Suc.IH [of "n + length m" m'] by (simp add: pp ps l)
qed

lemma foldl_upt_shift:
  "foldl f p (map g [0..<Suc j]) = foldl f (f p (g 0)) (map (\<lambda>l. g (Suc l)) [0..<j])"
proof -
  have "[0..<Suc j] = 0 # map Suc [0..<j]"
    by (simp only: map_Suc_upt upt_conv_Cons [of 0 "Suc j"])
  then show ?thesis
    by (simp add: comp_def del: upt_Suc)
qed

lemma passes64_nth:
  "j < k \<Longrightarrow> i < length m \<Longrightarrow>
   snd (passes64 e k n m) ! (j * length m + i) =
     \<lparr>sent64 = \<lparr>symbol64 = fst (m ! i),
                 price64 = foldl fadd (snd (m ! i))
                   (map (\<lambda>l. price_step (rand e (n + l * length m + i))) [0..<Suc j]),
                 timestamp64 = time e (n + j * length m + i)\<rparr>,
      accepted64 = Write e (n + j * length m + i)\<rparr>"
proof (induction k arbitrary: j n m)
  case 0
  then show ?case by simp
next
  case (Suc k)
  let ?L = "length m"
  obtain m' cs where pp: "price_pass64 e n m = (m', cs)" by (cases "price_pass64 e n m")
  obtain m'' cs' where ps: "passes64 e k (n + ?L) m' = (m'', cs')"
    by (cases "passes64 e k (n + ?L) m'")
  have l: "length m' = ?L" "length cs = ?L"
    using price_pass64_lengths [of e n m] by (simp_all add: pp)
  have all: "snd (passes64 e (Suc k) n m) = cs @ cs'"
    by (simp add: pp ps l)
  show ?case
  proof (cases j)
    case 0
    have "snd (passes64 e (Suc k) n m) ! (j * ?L + i) = snd (price_pass64 e n m) ! i"
      using Suc.prems(2) by (subst all) (simp add: 0 nth_append l pp)
    also have "\<dots> =
      \<lparr>sent64 = \<lparr>symbol64 = fst (m ! i),
                  price64 = fadd (snd (m ! i)) (price_step (rand e (n + i))),
                  timestamp64 = time e (n + i)\<rparr>,
       accepted64 = Write e (n + i)\<rparr>"
      using Suc.prems(2) by (rule price_pass64_nth_call)
    finally show ?thesis
      by (simp add: 0)
  next
    case (Suc j')
    then have j': "j' < k" using Suc.prems(1) by simp
    have i': "i < length m'" using Suc.prems(2) by (simp add: l)
    have key: "fst (m' ! i) = fst (m ! i)"
    proof -
      have "map fst m' ! i = map fst m ! i"
        using price_pass64_keys [of e n m] by (simp add: pp)
      then show ?thesis using i' Suc.prems(2) by simp
    qed
    have pr: "snd (m' ! i) = fadd (snd (m ! i)) (price_step (rand e (n + i)))"
      using price_pass64_nth_price [OF Suc.prems(2), of e n] by (simp add: pp)
    have idx: "j * ?L + i = length cs + (j' * ?L + i)"
      by (simp add: Suc l)
    have "(cs @ cs') ! (j * ?L + i) = cs' ! (j' * ?L + i)"
      unfolding idx by (rule nth_append_length_plus)
    also have "\<dots> = snd (passes64 e k (n + ?L) m') ! (j' * length m' + i)"
      by (simp add: ps l)
    also have "\<dots> =
      \<lparr>sent64 = \<lparr>symbol64 = fst (m' ! i),
                  price64 = foldl fadd (snd (m' ! i))
                    (map (\<lambda>l. price_step (rand e (n + ?L + l * length m' + i))) [0..<Suc j']),
                  timestamp64 = time e (n + ?L + j' * length m' + i)\<rparr>,
       accepted64 = Write e (n + ?L + j' * length m' + i)\<rparr>"
      using j' i' by (rule Suc.IH)
    finally have step: "(cs @ cs') ! (j * ?L + i) =
      \<lparr>sent64 = \<lparr>symbol64 = fst (m ! i),
                  price64 = foldl fadd (fadd (snd (m ! i)) (price_step (rand e (n + i))))
                    (map (\<lambda>l. price_step (rand e (n + ?L + l * ?L + i))) [0..<Suc j']),
                  timestamp64 = time e (n + ?L + j' * ?L + i)\<rparr>,
       accepted64 = Write e (n + ?L + j' * ?L + i)\<rparr>"
      by (simp only: key pr l)
    have fold: "foldl fadd (snd (m ! i))
        (map (\<lambda>l. price_step (rand e (n + l * ?L + i))) [0..<Suc j]) =
      foldl fadd (fadd (snd (m ! i)) (price_step (rand e (n + i))))
        (map (\<lambda>l. price_step (rand e (n + ?L + l * ?L + i))) [0..<Suc j'])"
      unfolding Suc
      by (subst foldl_upt_shift) (simp add: ac_simps del: upt_Suc)
    have t: "n + j * ?L + i = n + ?L + j' * ?L + i"
      by (simp add: Suc)
    show ?thesis
      by (subst all) (simp only: step fold t)
  qed
qed

lemma stream_loop64_cancelled:
  "IsCancelled e (iter + k) \<Longrightarrow> \<forall>j<k. \<not> IsCancelled e (iter + j) \<Longrightarrow>
   stream_loop64 e iter n m calls = Some (OK, calls @ snd (passes64 e k n m))"
proof (induction k arbitrary: iter n m calls)
  case 0
  then show ?case by (simp add: stream_loop64.simps)
next
  case (Suc k)
  obtain m' cs where pp: "price_pass64 e n m = (m', cs)" by (cases "price_pass64 e n m")
  have nc: "\<not> IsCancelled e iter" using Suc.prems(2) by force
  have c: "IsCancelled e (Suc iter + k)" using Suc.prems(1) by simp
  have n: "\<forall>j<k. \<not> IsCancelled e (Suc iter + j)"
  proof (intro allI impI)
    fix j assume "j < k"
    then have "Suc j < Suc k" by simp
    then have "\<not> IsCancelled e (iter + Suc j)" using Suc.prems(2) by blast
    then show "\<not> IsCancelled e (Suc iter + j)" by simp
  qed
  have "stream_loop64 e iter n m calls =
        stream_loop64 e (Suc iter) (n + length cs) m' (calls @ cs)"
    using nc pp by (subst stream_loop64.simps) simp
  also have "\<dots> = Some (OK, (calls @ cs) @ snd (passes64 e k (n + length cs) m'))"
    using c n by (rule Suc.IH)
  finally show ?case
    by (simp add: pp split: prod.splits)
qed

lemma StreamPrices64_cancelled:
  assumes "IsCancelled e k" and "\<forall>j<k. \<not> IsCancelled e j"
  shows "StreamPrices64 s e request =
    Some (s, OK, snd (passes64 e k 0 (map (\<lambda>k. (k, Finite 100)) (tracked_symbols request))))"
proof -
  have "stream_loop64 e 0 0 (init_prices64 (symbols request) []) [] =
    Some (OK, [] @ snd (passes64 e k 0 (init_prices64 (symbols request) [])))"
    using assms by (intro stream_loop64_cancelled) simp_all
  then show ?thesis
    by (simp add: StreamPrices64_def init_prices64_tracked)
qed


lemma price_step_57: "price_step 157 = Finite (5134103575202365 / 9007199254740992)"
  by (simp add: price_step_def double_of_int_def fdiv_def round64_eval)

lemma price_step_71: "price_step 171 = Finite (799388933858263 / 1125899906842624)"
  by (simp add: price_step_def double_of_int_def fdiv_def round64_eval)

lemma price_step_50: "price_step 150 = Finite (1 / 2)"
  by (simp add: price_step_def double_of_int_def fdiv_def round64_eval)

lemma price_step_64: "price_step 164 = Finite (5764607523034235 / 9007199254740992)"
  by (simp add: price_step_def double_of_int_def fdiv_def round64_eval)

lemma two_rounds_run64:
  "StreamPrices64 s two_rounds pair_request =
     Some (s, OK,
       [\<lparr>sent64 = \<lparr>symbol64 = ''BTCUSDT'', price64 = Finite (201 / 2), timestamp64 = 0\<rparr>,
          accepted64 = True\<rparr>,
        \<lparr>sent64 = \<lparr>symbol64 = ''ETHUSDT'',
                    price64 = Finite (1769246150486917 / 17592186044416), timestamp64 = 1\<rparr>,
          accepted64 = True\<rparr>,
        \<lparr>sent64 = \<lparr>symbol64 = ''BTCUSDT'',
                    price64 = Finite (7117094786128937 / 70368744177664), timestamp64 = 2\<rparr>,
          accepted64 = True\<rparr>,
        \<lparr>sent64 = \<lparr>symbol64 = ''ETHUSDT'',
                    price64 = Finite (7126946410313809 / 70368744177664), timestamp64 = 3\<rparr>,
          accepted64 = True\<rparr>])"
proof -
  have "StreamPrices64 s two_rounds pair_request =
    Some (s, OK,
      snd (passes64 two_rounds 2 0 (map (\<lambda>k. (k, Finite 100)) (tracked_symbols pair_request))))"
    using two_rounds_first by (intro StreamPrices64_cancelled) simp_all
  also have "snd (passes64 two_rounds 2 0
        (map (\<lambda>k. (k, Finite 100)) (tracked_symbols pair_request))) =
       [\<lparr>sent64 = \<lparr>symbol64 = ''BTCUSDT'', price64 = Finite (201 / 2), timestamp64 = 0\<rparr>,
          accepted64 = True\<rparr>,
        \<lparr>sent64 = \<lparr>symbol64 = ''ETHUSDT'',
                    price64 = Finite (1769246150486917 / 17592186044416), timestamp64 = 1\<rparr>,
          accepted64 = True\<rparr>,
        \<lparr>sent64 = \<lparr>symbol64 = ''BTCUSDT'',
                    price64 = Finite (7117094786128937 / 70368744177664), timestamp64 = 2\<rparr>,
          accepted64 = True\<rparr>,
        \<lparr>sent64 = \<lparr>symbol64 = ''ETHUSDT'',
                    price64 = Finite (7126946410313809 / 70368744177664), timestamp64 = 3\<rparr>,
          accepted64 = True\<rparr>]"
    by (simp add: tracked_pair numeral_2_eq_2 two_rounds_def price_step_def double_of_int_def
        fdiv_def round64_eval)
  finally show ?thesis .
qed

section \<open>Claims about SendPrice\<close>

text \<open>
  C1, as amended. No window belongs to a symbol: whatever the symbol of the request,
  \<^verbatim>\<open>SendPrice\<close> pushes its price into the one deque of the service object. The pair of
  window size and moving average printed for a request is therefore determined by the
  prices of all earlier requests, in order, and its own price; the symbols play no part.
\<close>

theorem shared_window_report:
  "price_window (fst (SendPrice s request)) = push_window (price_window s) (price request) \<and>
   (map price earlier1 = map price earlier2 \<and> price request1 = price request2 \<longrightarrow>
      reported earlier1 request1 = reported earlier2 request2)"
proof (intro conjI impI)
  show "price_window (fst (SendPrice s request)) = push_window (price_window s) (price request)"
    by (rule SendPrice_window)
next
  assume a: "map price earlier1 = map price earlier2 \<and> price request1 = price request2"
  then have "length (map price earlier1) = length (map price earlier2)" by simp
  then have "length earlier1 = length earlier2" by simp
  then show "reported earlier1 request1 = reported earlier2 request2"
    using a by (simp add: reported_eq)
qed

theorem shared_window_report_witness:
  "map price [eth10] = map price [btc10] \<and> reported [eth10] btc20 = reported [btc10] btc20"
  using shared_window_report [of new_service btc20 "[eth10]" "[btc10]" btc20 btc20]
  by (simp add: eth10_def btc10_def)

text \<open>
  C1, as stated, fails. A BTCUSDT tick of price 20 is reported with \<open>(1, 20)\<close> on a fresh
  service and with \<open>(2, 15)\<close> after one ETHUSDT tick of price 10, although the earlier
  BTCUSDT requests are the same (none) in both runs.
\<close>

theorem per_symbol_window_counterexample:
  "ingests_of ''BTCUSDT'' [eth10] = ingests_of ''BTCUSDT'' [] \<and>
   reported [eth10] btc20 = (2, 15) \<and>
   reported [] btc20 = (1, 20)"
  by (simp add: ingests_of_def reported_def SendPrice_def push_window_def moving_average_def
      WINDOW_SIZE_def new_service_def Let_def eth10_def btc20_def)

text \<open>
  C2, as amended. Once twenty or more requests have been sent to a fresh service, the
  moving average computed for the latest one, the value handed to the output stream, is
  computed from exactly the twenty most recent prices: their sum, accumulated from \<open>0.0\<close>
  in order of arrival with every addition rounded to a double, is divided by \<open>20.0\<close> and
  rounded once more. After exactly twenty-one requests the first price is no longer part
  of it.
\<close>

theorem moving_average64_recent_capacity:
  "(19 \<le> length earlier \<longrightarrow>
      snd (reported64 earlier request) =
        fdiv (foldl fadd (Finite 0) (last_n 20 (map price64 (earlier @ [request]))))
          (Finite 20)) \<and>
   (length earlier = 20 \<longrightarrow>
      snd (reported64 earlier request) =
        fdiv (foldl fadd (Finite 0) (map price64 (tl earlier @ [request]))) (Finite 20))"
proof (intro conjI impI)
  assume "19 \<le> length earlier"
  then have "length (last_n 20 (map price64 (earlier @ [request]))) = 20"
    by (simp add: length_last_n)
  then show "snd (reported64 earlier request) =
        fdiv (foldl fadd (Finite 0) (last_n 20 (map price64 (earlier @ [request]))))
          (Finite 20)"
    by (simp add: reported64_eq WINDOW_SIZE_def moving_average64_full)
next
  assume l: "length earlier = 20"
  then obtain e rest where e: "earlier = e # rest" by (cases earlier) auto
  have t: "last_n 20 (map price64 (earlier @ [request])) = map price64 (tl earlier @ [request])"
    using l by (simp add: last_n_def e)
  have "length (map price64 (tl earlier @ [request])) = 20"
    using l by simp
  then show "snd (reported64 earlier request) =
        fdiv (foldl fadd (Finite 0) (map price64 (tl earlier @ [request]))) (Finite 20)"
    by (simp only: reported64_eq WINDOW_SIZE_def t snd_conv moving_average64_full)
qed

theorem moving_average64_recent_capacity_witness:
  "length twenty_ticks64 = 20 \<and> snd (reported64 twenty_ticks64 (tick64 21)) = Finite (23 / 2)"
proof -
  have l: "length twenty_ticks64 = 20" by (simp add: twenty_ticks64_def)
  have d: "fdiv (Finite 230) (Finite 20) = Finite (23 / 2)"
    by (simp add: fdiv_def round64_eval)
  from moving_average64_recent_capacity [of twenty_ticks64 "tick64 21"] l
  have "snd (reported64 twenty_ticks64 (tick64 21)) =
      fdiv (foldl fadd (Finite 0) (map price64 (tl twenty_ticks64 @ [tick64 21]))) (Finite 20)"
    by blast
  then have "snd (reported64 twenty_ticks64 (tick64 21)) = Finite (23 / 2)"
    by (simp only: sum_twenty_ticks64 d)
  then show ?thesis using l by simp
qed

text \<open>
  C2, as stated, fails: what is computed is not the arithmetic mean of the prices. After
  the price \<open>2\<^sup>5\<^sup>3\<close> and nineteen times the price 1, all of them doubles, every addition
  of 1 is rounded away. The computed average is \<open>2\<^sup>5\<^sup>3 / 20\<close> rounded, which is
  450359962737049.625, while the mean of the twenty prices is 450359962737050.55 and
  the double nearest to that is 450359962737050.5625.
\<close>

theorem arithmetic_mean_counterexample:
  "length absorbing_ticks = 19 \<and>
   round64 (2 ^ 53) = Finite (2 ^ 53) \<and> round64 1 = Finite 1 \<and>
   snd (reported64 absorbing_ticks (tick64 1)) = Finite (3602879701896397 / 8) \<and>
   exact_mean (map price64 (absorbing_ticks @ [tick64 1])) = 9007199254741011 / 20 \<and>
   round64 (9007199254741011 / 20) = Finite (7205759403792809 / 16)"
proof (intro conjI)
  show "length absorbing_ticks = 19" by (simp add: absorbing_ticks_def)
  show "round64 (2 ^ 53) = Finite (2 ^ 53)" by (simp add: round64_eval)
  show "round64 1 = Finite 1" by (simp add: round64_eval)
  have len: "length (Finite (2 ^ 53) # replicate 19 (Finite (1::real))) = 20" by simp
  have "foldl fadd (Finite 0) (Finite (2 ^ 53) # replicate 19 (Finite 1)) = Finite (2 ^ 53)"
    using absorb_ones [of 19] by (simp add: round64_eval)
  then have "moving_average64 (Finite (2 ^ 53) # replicate 19 (Finite 1)) =
      fdiv (Finite (2 ^ 53)) (Finite 20)"
    by (simp only: moving_average64_full [OF len])
  also have "\<dots> = Finite (3602879701896397 / 8)"
    by (simp add: fdiv_def round64_eval)
  finally have avg: "moving_average64 (Finite (2 ^ 53) # replicate 19 (Finite 1)) =
      Finite (3602879701896397 / 8)" .
  have "snd (reported64 absorbing_ticks (tick64 1)) =
      moving_average64 (last_n WINDOW_SIZE (map price64 (absorbing_ticks @ [tick64 1])))"
    by (simp add: reported64_eq)
  also have "\<dots> = moving_average64 (Finite (2 ^ 53) # replicate 19 (Finite 1))"
    by (simp only: absorbing_prices) (simp add: last_n_def WINDOW_SIZE_def)
  finally show "snd (reported64 absorbing_ticks (tick64 1)) = Finite (3602879701896397 / 8)"
    by (simp only: avg)
  show "exact_mean (map price64 (absorbing_ticks @ [tick64 1])) = 9007199254741011 / 20"
    by (simp only: absorbing_prices) (simp add: exact_mean_def sum_list_replicate)
  show "round64 (9007199254741011 / 20) = Finite (7205759403792809 / 16)"
    by (simp add: round64_eval)
qed

text \<open>
  C3. On a fresh service the window size printed for the \<open>n\<close>-th request is
  \<open>min 20 n\<close>, and after any number of requests the deque holds at most 20 prices.
\<close>

theorem window_size_min:
  "fst (reported earlier request) = min 20 (Suc (length earlier)) \<and>
   length (price_window (fst (SendPrice_calls new_service reqs))) \<le> 20"
  by (simp add: reported_eq new_service_window length_last_n WINDOW_SIZE_def)

theorem window_size_min_witness:
  "fst (reported twenty_ticks tick21) = 20 \<and> fst (reported [] tick21) = 1"
  using window_size_min [of twenty_ticks tick21 "[]"] window_size_min [of "[]" tick21 "[]"]
  by (simp add: length_twenty_ticks)

text \<open>
  C10. In every call of \<^verbatim>\<open>SendPrice\<close> the deque that the average is computed from ends
  with the price just pushed, so it is not empty: the printed average is the accumulated
  sum divided by a positive size, never the value of the empty case.
\<close>

theorem SendPrice_average_after_push:
  "price_window (fst (SendPrice s request)) \<noteq> [] \<and>
   last (price_window (fst (SendPrice s request))) = price request \<and>
   0 < length (price_window (fst (SendPrice s request))) \<and>
   log_moving_avg (snd (snd (SendPrice s request))) =
     foldl (+) 0 (price_window (fst (SendPrice s request))) /
       real (length (price_window (fst (SendPrice s request))))"
proof -
  let ?w = "push_window (price_window s) (price request)"
  have ne: "?w \<noteq> []" by (rule push_window_nonempty)
  have la: "last ?w = price request"
    by (cases "price_window s") (auto simp: push_window_def Let_def WINDOW_SIZE_def last_tl)
  have av: "moving_average ?w = foldl (+) 0 ?w / real (length ?w)"
    using ne by (simp add: moving_average_def)
  show ?thesis
    using ne la av by (simp add: SendPrice_def Let_def)
qed

theorem SendPrice_average_after_push_witness:
  "log_moving_avg (snd (snd (SendPrice new_service tick21))) = 21"
  using SendPrice_average_after_push [of new_service tick21]
  by (simp add: SendPrice_def push_window_def WINDOW_SIZE_def new_service_def Let_def tick21_def)

section \<open>Claims about StreamPrices\<close>




text \<open>
  C5, as amended. The map of a call holds each distinct requested symbol once, at 100.0.
  When cancellation is first observed in iteration \<open>k\<close>, the call has written \<open>k\<close>
  rounds of one update per tracked symbol, and the update of the \<open>i\<close>-th symbol in round
  \<open>j\<close> carries the double that results from 100.0 by adding the steps drawn for that
  symbol in rounds \<open>0\<close> to \<open>j\<close> one after the other, each addition rounded to a double.
\<close>

theorem StreamPrices64_prices:
  "init_prices64 (symbols request) [] =
     map (\<lambda>k. (k, Finite 100)) (tracked_symbols request) \<and>
   distinct (tracked_symbols request) \<and>
   set (tracked_symbols request) = set (symbols request) \<and>
   (IsCancelled e k \<and> (\<forall>j<k. \<not> IsCancelled e j) \<longrightarrow>
      (\<exists>calls. StreamPrices64 s e request = Some (s, OK, calls) \<and>
         length calls = k * length (tracked_symbols request) \<and>
         (\<forall>j<k. \<forall>i<length (tracked_symbols request).
            symbol64 (sent64 (calls ! (j * length (tracked_symbols request) + i))) =
              tracked_symbols request ! i \<and>
            price64 (sent64 (calls ! (j * length (tracked_symbols request) + i))) =
              foldl fadd (Finite 100)
                (map (\<lambda>l. price_step (rand e (l * length (tracked_symbols request) + i)))
                   [0..<Suc j]))))"
proof (intro conjI impI)
  show "init_prices64 (symbols request) [] =
      map (\<lambda>k. (k, Finite 100)) (tracked_symbols request)"
    by (rule init_prices64_tracked)
  show "distinct (tracked_symbols request)"
    by (simp add: tracked_symbols_def)
  show "set (tracked_symbols request) = set (symbols request)"
    by (simp add: tracked_symbols_def)
next
  let ?keys = "tracked_symbols request"
  let ?m = "map (\<lambda>k. (k, Finite 100)) ?keys"
  let ?calls = "snd (passes64 e k 0 ?m)"
  assume c: "IsCancelled e k \<and> (\<forall>j<k. \<not> IsCancelled e j)"
  then have res: "StreamPrices64 s e request = Some (s, OK, ?calls)"
    by (simp add: StreamPrices64_cancelled)
  have len: "length ?calls = k * length ?keys"
    by (simp add: passes64_length)
  have nth: "symbol64 (sent64 (?calls ! (j * length ?keys + i))) = ?keys ! i \<and>
      price64 (sent64 (?calls ! (j * length ?keys + i))) =
        foldl fadd (Finite 100)
          (map (\<lambda>l. price_step (rand e (l * length ?keys + i))) [0..<Suc j])"
    if "j < k" "i < length ?keys" for j i
  proof -
    have i: "i < length ?m" using that(2) by simp
    show ?thesis
      using passes64_nth [OF that(1) i, of e 0] that(2) by (simp del: upt_Suc)
  qed
  show "\<exists>calls. StreamPrices64 s e request = Some (s, OK, calls) \<and>
         length calls = k * length ?keys \<and>
         (\<forall>j<k. \<forall>i<length ?keys.
            symbol64 (sent64 (calls ! (j * length ?keys + i))) = ?keys ! i \<and>
            price64 (sent64 (calls ! (j * length ?keys + i))) =
              foldl fadd (Finite 100)
                (map (\<lambda>l. price_step (rand e (l * length ?keys + i))) [0..<Suc j]))"
    using res len nth by blast
qed

theorem StreamPrices64_prices_witness:
  "IsCancelled two_rounds 2 \<and> \<not> IsCancelled two_rounds 0 \<and> \<not> IsCancelled two_rounds 1 \<and>
   init_prices64 (symbols pair_request) [] =
     [(''BTCUSDT'', Finite 100), (''ETHUSDT'', Finite 100)] \<and>
   (\<exists>calls. StreamPrices64 new_service64 two_rounds pair_request =
        Some (new_service64, OK, calls) \<and>
      length calls = 4 \<and>
      symbol64 (sent64 (calls ! 3)) = ''ETHUSDT'' \<and>
      price64 (sent64 (calls ! 3)) =
        fadd (fadd (Finite 100) (price_step 157)) (price_step 171))"
proof -
  note f = two_rounds_first
  from StreamPrices64_prices [of pair_request two_rounds 2 new_service64] f
  obtain calls where
    i: "init_prices64 (symbols pair_request) [] =
      map (\<lambda>k. (k, Finite 100)) (tracked_symbols pair_request)" and
    r: "StreamPrices64 new_service64 two_rounds pair_request = Some (new_service64, OK, calls)" and
    l: "length calls = 2 * length (tracked_symbols pair_request)" and
    n: "\<forall>j<2. \<forall>i<length (tracked_symbols pair_request).
            symbol64 (sent64 (calls ! (j * length (tracked_symbols pair_request) + i))) =
              tracked_symbols pair_request ! i \<and>
            price64 (sent64 (calls ! (j * length (tracked_symbols pair_request) + i))) =
              foldl fadd (Finite 100)
                (map (\<lambda>l. price_step
                        (rand two_rounds (l * length (tracked_symbols pair_request) + i)))
                   [0..<Suc j])"
    by blast
  have "(1::nat) < 2" "1 < length (tracked_symbols pair_request)"
    by (simp_all add: tracked_pair)
  with n have "symbol64 (sent64 (calls ! (1 * length (tracked_symbols pair_request) + 1))) =
              tracked_symbols pair_request ! 1 \<and>
            price64 (sent64 (calls ! (1 * length (tracked_symbols pair_request) + 1))) =
              foldl fadd (Finite 100)
                (map (\<lambda>l. price_step
                        (rand two_rounds (l * length (tracked_symbols pair_request) + 1)))
                   [0..<Suc 1])"
    by blast
  then have "symbol64 (sent64 (calls ! 3)) = ''ETHUSDT'' \<and>
      price64 (sent64 (calls ! 3)) =
        fadd (fadd (Finite 100) (price_step 157)) (price_step 171)"
    by (simp add: tracked_pair numeral_3_eq_3 two_rounds_def)
  moreover have "IsCancelled two_rounds 2 \<and> \<not> IsCancelled two_rounds 0 \<and>
      \<not> IsCancelled two_rounds 1"
    by (simp add: two_rounds_def)
  ultimately show ?thesis
    using i r l by (simp add: tracked_pair)
qed

text \<open>
  C5, as stated, fails: the price is not 100.0 plus the sum of the steps. With the draws
  157 and 171 for ETHUSDT the steps are the doubles nearest to 0.57 and 0.71, and the
  second update of ETHUSDT carries 7126946410313809 / 70368744177664, just below
  101.28: this is neither 100 plus the sum of the two steps nor the double nearest to
  that sum, which is also the double nearest to 100 + 0.57 + 0.71.
\<close>

theorem price_sum_counterexample:
  "StreamPrices64 new_service64 two_rounds pair_request =
     Some (new_service64, OK,
       [\<lparr>sent64 = \<lparr>symbol64 = ''BTCUSDT'', price64 = Finite (201 / 2), timestamp64 = 0\<rparr>,
          accepted64 = True\<rparr>,
        \<lparr>sent64 = \<lparr>symbol64 = ''ETHUSDT'',
                    price64 = Finite (1769246150486917 / 17592186044416), timestamp64 = 1\<rparr>,
          accepted64 = True\<rparr>,
        \<lparr>sent64 = \<lparr>symbol64 = ''BTCUSDT'',
                    price64 = Finite (7117094786128937 / 70368744177664), timestamp64 = 2\<rparr>,
          accepted64 = True\<rparr>,
        \<lparr>sent64 = \<lparr>symbol64 = ''ETHUSDT'',
                    price64 = Finite (7126946410313809 / 70368744177664), timestamp64 = 3\<rparr>,
          accepted64 = True\<rparr>]) \<and>
   price_step (rand two_rounds 1) = Finite (5134103575202365 / 9007199254740992) \<and>
   price_step (rand two_rounds 3) = Finite (799388933858263 / 1125899906842624) \<and>
   (100 + 5134103575202365 / 9007199254740992 + 799388933858263 / 1125899906842624 :: real) =
     912249140520167669 / 9007199254740992 \<and>
   (7126946410313809 / 70368744177664 :: real) \<noteq> 912249140520167669 / 9007199254740992 \<and>
   round64 (912249140520167669 / 9007199254740992) =
     Finite (3563473205156905 / 35184372088832) \<and>
   round64 (100 + price_change (rand two_rounds 1) + price_change (rand two_rounds 3)) =
     Finite (3563473205156905 / 35184372088832)"
proof (intro conjI)
  show "round64 (100 + price_change (rand two_rounds 1) + price_change (rand two_rounds 3)) =
     Finite (3563473205156905 / 35184372088832)"
    by (simp add: two_rounds_def price_change_def round64_eval)
  show "price_step (rand two_rounds 1) = Finite (5134103575202365 / 9007199254740992)"
    by (simp add: two_rounds_def price_step_57)
  show "price_step (rand two_rounds 3) = Finite (799388933858263 / 1125899906842624)"
    by (simp add: two_rounds_def price_step_71)
  show "round64 (912249140520167669 / 9007199254740992) =
     Finite (3563473205156905 / 35184372088832)"
    by (simp add: round64_eval)
qed (simp_all add: two_rounds_run64)

text \<open>
  C6. Cancellation is tested before each round. When it is first observed in iteration
  \<open>k\<close>, the call returns \<open>OK\<close>, and what it has written is exactly what the \<open>k\<close>
  rounds before wrote: nothing is written in or after the iteration that observes it.
\<close>

theorem StreamPrices_cancellation:
  "IsCancelled e k \<and> (\<forall>j<k. \<not> IsCancelled e j) \<longrightarrow>
     (\<exists>calls. StreamPrices s e request = Some (s, OK, calls) \<and>
        calls = snd (passes e k 0 (init_prices (symbols request) [])) \<and>
        length calls = k * length (tracked_symbols request))"
proof
  assume "IsCancelled e k \<and> (\<forall>j<k. \<not> IsCancelled e j)"
  then have "StreamPrices s e request =
    Some (s, OK, snd (passes e k 0 (map (\<lambda>k. (k, 100)) (tracked_symbols request))))"
    by (simp add: StreamPrices_cancelled)
  then show "\<exists>calls. StreamPrices s e request = Some (s, OK, calls) \<and>
        calls = snd (passes e k 0 (init_prices (symbols request) [])) \<and>
        length calls = k * length (tracked_symbols request)"
    by (simp add: init_prices_tracked passes_length)
qed

theorem StreamPrices_cancellation_witness:
  "IsCancelled client_gone 2 \<and> \<not> IsCancelled client_gone 0 \<and> \<not> IsCancelled client_gone 1 \<and>
   (\<exists>calls. StreamPrices new_service client_gone btc_request = Some (new_service, OK, calls) \<and>
      length calls = 2)"
proof -
  have "\<exists>calls. StreamPrices new_service client_gone btc_request = Some (new_service, OK, calls) \<and>
      length calls = 2"
    using StreamPrices_cancellation [of client_gone 2 new_service btc_request] client_gone_first
    by (simp add: tracked_btc)
  moreover have "IsCancelled client_gone 2 \<and> \<not> IsCancelled client_gone 0 \<and>
      \<not> IsCancelled client_gone 1"
    by (simp add: client_gone_def)
  ultimately show ?thesis by blast
qed

text \<open>
  C7, as amended. A failed write is not treated as cancellation. The result of
  \<^verbatim>\<open>Write\<close> is ignored: the updates handed to the writer, whether the call returns and the
  status are the same whatever the writes return. The call returns exactly when
  cancellation is observed at the top of some iteration, and then with \<open>OK\<close>.
\<close>

theorem StreamPrices_ignores_write_result:
  "sent_updates (StreamPrices s (e\<lparr>Write := w\<rparr>) request) =
     sent_updates (StreamPrices s e request) \<and>
   (StreamPrices s e request \<noteq> None \<longleftrightarrow> (\<exists>k. IsCancelled e k)) \<and>
   (\<forall>s' status calls. StreamPrices s e request = Some (s', status, calls) \<longrightarrow> status = OK)"
proof (intro conjI allI impI)
  show "sent_updates (StreamPrices s (e\<lparr>Write := w\<rparr>) request) =
     sent_updates (StreamPrices s e request)"
  proof (cases "\<exists>k. IsCancelled e k")
    case True
    then obtain k where k: "IsCancelled e k" "\<forall>j<k. \<not> IsCancelled e j"
      using first_cancellation by blast
    then have k': "IsCancelled (e\<lparr>Write := w\<rparr>) k" "\<forall>j<k. \<not> IsCancelled (e\<lparr>Write := w\<rparr>) j"
      by simp_all
    show ?thesis
      by (simp add: StreamPrices_cancelled [OF k] StreamPrices_cancelled [OF k']
          sent_updates_def passes_Write)
  next
    case False
    then have "\<not> (\<exists>k. IsCancelled (e\<lparr>Write := w\<rparr>) k)" by simp
    then have "StreamPrices s (e\<lparr>Write := w\<rparr>) request = None"
      using StreamPrices_returns [of s "e\<lparr>Write := w\<rparr>" request] by blast
    moreover have "StreamPrices s e request = None"
      using False StreamPrices_returns [of s e request] by blast
    ultimately show ?thesis by simp
  qed
  show "StreamPrices s e request \<noteq> None \<longleftrightarrow> (\<exists>k. IsCancelled e k)"
    by (rule StreamPrices_returns)
  show "status = OK" if r: "StreamPrices s e request = Some (s', status, calls)"
    for s' status calls
  proof -
    from r have "StreamPrices s e request \<noteq> None" by simp
    then have "\<exists>k. IsCancelled e k" using StreamPrices_returns by blast
    then obtain k where k: "IsCancelled e k" "\<forall>j<k. \<not> IsCancelled e j"
      using first_cancellation by blast
    show ?thesis
      using r by (simp add: StreamPrices_cancelled [OF k])
  qed
qed

theorem StreamPrices_ignores_write_result_witness:
  "sent_updates (StreamPrices new_service (client_gone\<lparr>Write := \<lambda>n. True\<rparr>) btc_request) =
     sent_updates (StreamPrices new_service client_gone btc_request) \<and>
   IsCancelled client_gone 2 \<and>
   StreamPrices new_service client_gone btc_request \<noteq> None"
proof -
  have c: "IsCancelled client_gone 2" by (simp add: client_gone_def)
  then have "\<exists>k. IsCancelled client_gone k" by blast
  then show ?thesis
    using c StreamPrices_ignores_write_result
      [where s = new_service and e = client_gone and w = "\<lambda>n. True" and request = btc_request]
    by blast
qed

text \<open>
  C7, as stated, fails. With a client for which every write fails and cancellation is
  observed in iteration 2 only, the first write fails and the loop still hands a second
  update to the writer.
\<close>

theorem write_failure_counterexample:
  "Write client_gone 0 = False \<and>
   StreamPrices new_service client_gone btc_request =
     Some (new_service, OK,
       [\<lparr>sent = \<lparr>symbol = ''BTCUSDT'', price = 201 / 2, timestamp = 0\<rparr>, accepted = False\<rparr>,
        \<lparr>sent = \<lparr>symbol = ''BTCUSDT'', price = 101, timestamp = 0\<rparr>, accepted = False\<rparr>])"
  by (simp add: client_gone_run) (simp add: client_gone_def)

text \<open>
  C8. With the same request and the same surroundings, the status and the updates of a
  streaming call are the same for any two states of the service object, whatever was
  ingested before, and the call returns the service object as it found it. Symbols and
  prices of the updates are already the same when only the values of \<^verbatim>\<open>std::rand()\<close> and
  the answers of \<^verbatim>\<open>IsCancelled\<close> agree; the timestamps follow the clock.
\<close>

theorem StreamPrices_independent_of_store:
  "map_option snd (StreamPrices s1 e request) = map_option snd (StreamPrices s2 e request) \<and>
   map_option fst (StreamPrices s e request) = map_option (\<lambda>_. s) (StreamPrices s e request) \<and>
   (rand e1 = rand e2 \<and> IsCancelled e1 = IsCancelled e2 \<longrightarrow>
      emitted_prices (StreamPrices s1 e1 request) = emitted_prices (StreamPrices s2 e2 request))"
proof (intro conjI impI)
  show "map_option snd (StreamPrices s1 e request) = map_option snd (StreamPrices s2 e request)"
    by (auto simp: StreamPrices_def split: option.splits)
  show "map_option fst (StreamPrices s e request) = map_option (\<lambda>_. s) (StreamPrices s e request)"
    by (auto simp: StreamPrices_def split: option.splits)
  show "emitted_prices (StreamPrices s1 e1 request) = emitted_prices (StreamPrices s2 e2 request)"
    if "rand e1 = rand e2 \<and> IsCancelled e1 = IsCancelled e2"
    using that by (simp add: emitted_prices_same_draws)
qed

theorem StreamPrices_independent_of_store_witness:
  "price_window used_service \<noteq> price_window new_service \<and>
   rand client_gone = rand (client_gone\<lparr>time := int\<rparr>) \<and>
   IsCancelled client_gone = IsCancelled (client_gone\<lparr>time := int\<rparr>) \<and>
   emitted_prices (StreamPrices used_service (client_gone\<lparr>time := int\<rparr>) btc_request) =
     Some (OK, [(''BTCUSDT'', 201 / 2), (''BTCUSDT'', 101)]) \<and>
   StreamPrices used_service client_gone btc_request =
     Some (used_service, OK,
       [\<lparr>sent = \<lparr>symbol = ''BTCUSDT'', price = 201 / 2, timestamp = 0\<rparr>, accepted = False\<rparr>,
        \<lparr>sent = \<lparr>symbol = ''BTCUSDT'', price = 101, timestamp = 0\<rparr>, accepted = False\<rparr>])"
proof -
  have h: "rand client_gone = rand (client_gone\<lparr>time := int\<rparr>) \<and>
      IsCancelled client_gone = IsCancelled (client_gone\<lparr>time := int\<rparr>)"
    by simp
  have w: "price_window used_service \<noteq> price_window new_service"
    by (simp add: used_service_window new_service_def)
  from StreamPrices_independent_of_store
    [where ?s1.0 = new_service and ?s2.0 = used_service and ?e1.0 = client_gone and
      ?e2.0 = "client_gone\<lparr>time := int\<rparr>" and request = btc_request and e = client_gone and
      s = used_service]
  have a: "map_option snd (StreamPrices new_service client_gone btc_request) =
      map_option snd (StreamPrices used_service client_gone btc_request)"
    and b: "map_option fst (StreamPrices used_service client_gone btc_request) =
      map_option (\<lambda>_. used_service) (StreamPrices used_service client_gone btc_request)"
    and c: "emitted_prices (StreamPrices new_service client_gone btc_request) =
      emitted_prices (StreamPrices used_service (client_gone\<lparr>time := int\<rparr>) btc_request)"
    using h by blast+
  from c have c': "emitted_prices (StreamPrices used_service (client_gone\<lparr>time := int\<rparr>) btc_request) =
     Some (OK, [(''BTCUSDT'', 201 / 2), (''BTCUSDT'', 101)])"
    by (simp add: client_gone_run emitted_prices_def quote_def)
  from a b have "StreamPrices used_service client_gone btc_request =
     Some (used_service, OK,
       [\<lparr>sent = \<lparr>symbol = ''BTCUSDT'', price = 201 / 2, timestamp = 0\<rparr>, accepted = False\<rparr>,
        \<lparr>sent = \<lparr>symbol = ''BTCUSDT'', price = 101, timestamp = 0\<rparr>, accepted = False\<rparr>])"
    by (auto simp: client_gone_run)
  then show ?thesis using h w c' by blast
qed

end
